theory Spec2Isabelle
  imports Main "HOL-Library.AList"
begin

section \<open>Values and the object heap\<close>

text \<open>
  The store of \<^verbatim>\<open>src/store.ts\<close> holds a JavaScript value and hands out references to
  it, so objects live in an explicit heap. An address is an index into the heap, an
  object is the list of its own enumerable properties in insertion order (an array is
  the object of its indices), and allocation appends to the heap. Numbers are integers
  here: \<^verbatim>\<open>NaN\<close>, the one primitive that is not \<^verbatim>\<open>===\<close> to itself, is outside
  the model, so \<^verbatim>\<open>===\<close> is equality of \<open>val\<close>: by value on primitives, by address
  on objects.
\<close>

type_synonym addr = nat

datatype prim = JUndefined | JNull | JBool bool | JNum int | JStr string

datatype val = Prim prim | Ref addr

type_synonym obj = "(string \<times> val) list"

type_synonym heap = "obj list"

text \<open>Reading a property: \<^verbatim>\<open>object[key]\<close>, \<^verbatim>\<open>undefined\<close> when the key is missing.\<close>

definition get_prop :: "obj \<Rightarrow> string \<Rightarrow> val" where
  "get_prop ob k = (case map_of ob k of None \<Rightarrow> Prim JUndefined | Some v \<Rightarrow> v)"

text \<open>
  The content of a value down to a given depth, with the addresses forgotten: two
  values are deep-equal when they have the same content at every depth.
\<close>

datatype tree = TPrim prim | TObj "(string \<times> tree) list" | TCut | TDangling

primrec reify :: "nat \<Rightarrow> heap \<Rightarrow> val \<Rightarrow> tree" where
  "reify 0 h v = (case v of Prim p \<Rightarrow> TPrim p | Ref a \<Rightarrow> TCut)"
| "reify (Suc n) h v =
     (case v of
        Prim p \<Rightarrow> TPrim p
      | Ref a \<Rightarrow>
          if a < length h then TObj (map (\<lambda>kv. (fst kv, reify n h (snd kv))) (h ! a))
          else TDangling)"

text \<open>The addresses of the objects a value reaches within a given depth.\<close>

primrec nodes :: "nat \<Rightarrow> heap \<Rightarrow> val \<Rightarrow> addr list" where
  "nodes 0 h v = (case v of Prim p \<Rightarrow> [] | Ref a \<Rightarrow> [a])"
| "nodes (Suc n) h v =
     (case v of
        Prim p \<Rightarrow> []
      | Ref a \<Rightarrow>
          if a < length h then a # concat (map (\<lambda>kv. nodes n h (snd kv)) (h ! a))
          else [a])"

text \<open>
  \<open>fits n h v\<close>: the value is a finite structure of height at most \<open>n\<close> whose
  references all point into the heap.
\<close>

primrec fits :: "nat \<Rightarrow> heap \<Rightarrow> val \<Rightarrow> bool" where
  "fits 0 h v = (case v of Prim p \<Rightarrow> True | Ref a \<Rightarrow> False)"
| "fits (Suc n) h v =
     (case v of
        Prim p \<Rightarrow> True
      | Ref a \<Rightarrow> a < length h \<and> list_all (\<lambda>kv. fits n h (snd kv)) (h ! a))"

section \<open>The lodash functions the store calls\<close>

text \<open>
  \<^verbatim>\<open>_.cloneDeep(value)\<close>: primitives are returned as they are, an object is copied
  property by property into a newly allocated object, its values cloned recursively.
  The state is a tree of objects, arrays and primitives, and the model copies it as
  one: the recursion is bounded by fuel, and \<open>None\<close> is a structure deeper than
  the fuel (a cyclic one at any fuel) or a dangling reference. lodash also keeps a
  table of the objects already copied, so that an object reached twice is copied once
  and a cycle is copied as a cycle; the table is not modelled, and an object reached
  twice is copied twice here, with the same content. Children are cloned before the
  parent is allocated; the order of allocation is not observable.
\<close>

fun clone_props ::
  "(heap \<Rightarrow> val \<Rightarrow> (val \<times> heap) option) \<Rightarrow> heap \<Rightarrow> obj \<Rightarrow> (obj \<times> heap) option" where
  "clone_props f h [] = Some ([], h)"
| "clone_props f h (kv # ps) =
     (case f h (snd kv) of
        None \<Rightarrow> None
      | Some (v', h1) \<Rightarrow>
          (case clone_props f h1 ps of
             None \<Rightarrow> None
           | Some (ps', h2) \<Rightarrow> Some ((fst kv, v') # ps', h2)))"

primrec cloneDeep :: "nat \<Rightarrow> heap \<Rightarrow> val \<Rightarrow> (val \<times> heap) option" where
  "cloneDeep 0 h v = (case v of Prim p \<Rightarrow> Some (v, h) | Ref a \<Rightarrow> None)"
| "cloneDeep (Suc n) h v =
     (case v of
        Prim p \<Rightarrow> Some (v, h)
      | Ref a \<Rightarrow>
          if a < length h then
            (case clone_props (cloneDeep n) h (h ! a) of
               None \<Rightarrow> None
             | Some (ps', h') \<Rightarrow> Some (Ref (length h'), h' @ [ps']))
          else None)"

text \<open>
  \<^verbatim>\<open>_.get(object, path)\<close>, the path given as the list of keys lodash splits it into.
  The walk stops at \<^verbatim>\<open>null\<close> and \<^verbatim>\<open>undefined\<close>; a walk that stops early, and
  the empty path, give \<^verbatim>\<open>undefined\<close>. A property of another primitive reads as
  \<^verbatim>\<open>undefined\<close> (the properties of boxed strings and of prototypes are not modelled).
\<close>

fun get_walk :: "heap \<Rightarrow> val \<Rightarrow> string list \<Rightarrow> val" where
  "get_walk h v [] = v"
| "get_walk h (Prim JUndefined) (k # ks) = Prim JUndefined"
| "get_walk h (Prim JNull) (k # ks) = Prim JUndefined"
| "get_walk h (Prim p) (k # ks) = get_walk h (Prim JUndefined) ks"
| "get_walk h (Ref a) (k # ks) =
     get_walk h (if a < length h then get_prop (h ! a) k else Prim JUndefined) ks"

definition lodash_get :: "heap \<Rightarrow> val \<Rightarrow> string list \<Rightarrow> val" where
  "lodash_get h v path = (if path = [] then Prim JUndefined else get_walk h v path)"

text \<open>
  \<^verbatim>\<open>_.assign(object, source)\<close>: every own enumerable property of the source is
  written onto the target, in the source's order, and the target is returned. A
  target that is not an object is boxed by \<^verbatim>\<open>Object(object)\<close> into a new object
  (represented with no own properties); a source that is not an object has no keys.
\<close>

definition own_props :: "heap \<Rightarrow> val \<Rightarrow> obj" where
  "own_props h v = (case v of Prim p \<Rightarrow> [] | Ref a \<Rightarrow> if a < length h then h ! a else [])"

fun assign_props :: "obj \<Rightarrow> obj \<Rightarrow> obj" where
  "assign_props ob [] = ob"
| "assign_props ob (kv # ps) = assign_props (AList.update (fst kv) (snd kv) ob) ps"

definition lodash_assign :: "heap \<Rightarrow> val \<Rightarrow> val \<Rightarrow> val \<times> heap" where
  "lodash_assign h target source =
     (case target of
        Prim p \<Rightarrow> (Ref (length h), h @ [assign_props [] (own_props h source)])
      | Ref a \<Rightarrow> (Ref a, h[a := assign_props (own_props h target) (own_props h source)]))"

section \<open>The store\<close>

text \<open>
  The variables closed over by \<^verbatim>\<open>Store(initial)\<close>: the caller's \<^verbatim>\<open>initial\<close>
  (a reference, not a copy), \<^verbatim>\<open>state\<close>, \<^verbatim>\<open>queued\<close> and the \<^verbatim>\<open>listeners\<close> set,
  together with the heap they point into. The pending \<^verbatim>\<open>setTimeout\<close> callbacks are
  all the same closure, so they are a count. A function object made by a hook is an
  index into \<open>closures\<close>. \<open>calls\<close> and \<open>renders\<close> record, in order, the listeners
  invoked and the components whose \<^verbatim>\<open>forceUpdate\<close> was called.
\<close>

type_synonym cid = nat

type_synonym fref = nat

datatype closure =
    TreeListener cid
  | SubtreeListener cid "string list" val

record store =
  heap :: heap
  initial :: val
  state :: val
  queued :: bool
  listeners :: "fref option list"
  closures :: "closure list"
  timers :: nat
  calls :: "fref list"
  renders :: "cid list"

text \<open>
  A JavaScript \<^verbatim>\<open>Set\<close> is the list of its entries in insertion order; \<^verbatim>\<open>delete\<close>
  empties the entry's slot and leaves the other entries in place, which is what lets
  \<^verbatim>\<open>forEach\<close> run while the set changes.
\<close>

definition set_add :: "'a \<Rightarrow> 'a option list \<Rightarrow> 'a option list" where
  "set_add x es = (if Some x \<in> set es then es else es @ [Some x])"

definition set_delete :: "'a \<Rightarrow> 'a option list \<Rightarrow> 'a option list" where
  "set_delete x es = map (\<lambda>e. if e = Some x then None else e) es"

definition live :: "'a option list \<Rightarrow> 'a list" where
  "live es = concat (map (\<lambda>e. case e of None \<Rightarrow> [] | Some x \<Rightarrow> [x]) es)"

text \<open>\<^verbatim>\<open>Store(initial)\<close>, called with the caller's heap.\<close>

definition Store :: "nat \<Rightarrow> heap \<Rightarrow> val \<Rightarrow> store option" where
  "Store d h init =
     (case cloneDeep d h init of
        None \<Rightarrow> None
      | Some (v, h') \<Rightarrow>
          Some \<lparr>heap = h', initial = init, state = v, queued = False, listeners = [],
                closures = [], timers = 0, calls = [], renders = []\<rparr>)"

text \<open>\<^verbatim>\<open>subscribe(listener)\<close> and the function it returns.\<close>

definition subscribe :: "fref \<Rightarrow> store \<Rightarrow> store" where
  "subscribe f s = s\<lparr>listeners := set_add f (listeners s)\<rparr>"

definition unsubscribe :: "fref \<Rightarrow> store \<Rightarrow> store" where
  "unsubscribe f s = s\<lparr>listeners := set_delete f (listeners s)\<rparr>"

text \<open>
  \<^verbatim>\<open>notify()\<close> (named \<^verbatim>\<open>update()\<close> in the earlier version of the file, with the
  same body): the callback handed to \<^verbatim>\<open>setTimeout\<close> is \<open>flush\<close> below.
\<close>

definition notify :: "store \<Rightarrow> store" where
  "notify s = (if \<not> queued s then s\<lparr>queued := True, timers := timers s + 1\<rparr> else s)"

definition getTree :: "store \<Rightarrow> val" where
  "getTree s = state s"

definition reset :: "nat \<Rightarrow> store \<Rightarrow> store option" where
  "reset d s =
     (case cloneDeep d (heap s) (initial s) of
        None \<Rightarrow> None
      | Some (v, h') \<Rightarrow> Some (notify (s\<lparr>heap := h', state := v\<rparr>)))"

definition set_store :: "val \<Rightarrow> store \<Rightarrow> store" where
  "set_store fork s =
     (case lodash_assign (heap s) (state s) fork of
        (v, h') \<Rightarrow> notify (s\<lparr>heap := h', state := v\<rparr>))"

text \<open>
  The effects of the two hooks. Each creates a new closure and subscribes it; the
  cleanup React keeps is \<open>unsubscribe\<close> of that closure. \<^verbatim>\<open>useSubtree\<close> captures
  \<^verbatim>\<open>oldEncoding\<close> when the effect runs.
\<close>

definition useTree_effect :: "cid \<Rightarrow> store \<Rightarrow> store" where
  "useTree_effect c s =
     subscribe (length (closures s)) (s\<lparr>closures := closures s @ [TreeListener c]\<rparr>)"

definition useSubtree_effect :: "cid \<Rightarrow> string list \<Rightarrow> store \<Rightarrow> store" where
  "useSubtree_effect c path s =
     subscribe (length (closures s))
       (s\<lparr>closures := closures s @ [SubtreeListener c path (lodash_get (heap s) (state s) path)]\<rparr>)"

definition useSubtree_value :: "string list \<Rightarrow> store \<Rightarrow> val" where
  "useSubtree_value path s = lodash_get (heap s) (state s) path"

section \<open>External code and the flush\<close>

text \<open>
  What code outside the store can do with it: call its methods, create objects, write
  a property of an object it holds, mount and unmount a component that uses a hook,
  and raise. \<open>subscribe\<close> is not exported, so only the hooks call it.
\<close>

datatype cmd =
    CNotify
  | CSet val
  | CReset
  | CAlloc obj
  | CWrite addr string val
  | CUseTree cid
  | CUseSubtree cid "string list"
  | CCleanup fref
  | CThrow

datatype outcome = Normal store | Thrown store

fun store_of :: "outcome \<Rightarrow> store" where
  "store_of (Normal s) = s"
| "store_of (Thrown s) = s"

definition write_prop :: "addr \<Rightarrow> string \<Rightarrow> val \<Rightarrow> store \<Rightarrow> store" where
  "write_prop a k v s =
     (if a < length (heap s) then s\<lparr>heap := (heap s)[a := AList.update k v (heap s ! a)]\<rparr>
      else s)"

fun exec_cmd :: "nat \<Rightarrow> cmd \<Rightarrow> store \<Rightarrow> outcome option" where
  "exec_cmd d CNotify s = Some (Normal (notify s))"
| "exec_cmd d (CSet fork) s = Some (Normal (set_store fork s))"
| "exec_cmd d CReset s = map_option Normal (reset d s)"
| "exec_cmd d (CAlloc ob) s = Some (Normal (s\<lparr>heap := heap s @ [ob]\<rparr>))"
| "exec_cmd d (CWrite a k v) s = Some (Normal (write_prop a k v s))"
| "exec_cmd d (CUseTree c) s = Some (Normal (useTree_effect c s))"
| "exec_cmd d (CUseSubtree c path) s = Some (Normal (useSubtree_effect c path s))"
| "exec_cmd d (CCleanup f) s = Some (Normal (unsubscribe f s))"
| "exec_cmd d CThrow s = Some (Thrown s)"

fun exec_cmds :: "nat \<Rightarrow> cmd list \<Rightarrow> store \<Rightarrow> outcome option" where
  "exec_cmds d [] s = Some (Normal s)"
| "exec_cmds d (c # cs) s =
     (case exec_cmd d c s of
        None \<Rightarrow> None
      | Some (Thrown s') \<Rightarrow> Some (Thrown s')
      | Some (Normal s') \<Rightarrow> exec_cmds d cs s')"

text \<open>
  \<^verbatim>\<open>forceUpdate(always)\<close> is React's state setter. \<open>host c\<close> is what the host runs
  synchronously when component \<open>c\<close> is told to update: nothing when updates are
  batched, the component's own code when they are not.
\<close>

definition forceUpdate :: "(cid \<Rightarrow> cmd list) \<Rightarrow> nat \<Rightarrow> cid \<Rightarrow> store \<Rightarrow> outcome option" where
  "forceUpdate host d c s = exec_cmds d (host c) (s\<lparr>renders := renders s @ [c]\<rparr>)"

text \<open>
  Calling the function object \<open>f\<close>: the arrow functions of \<^verbatim>\<open>useTree\<close> and
  \<^verbatim>\<open>useSubtree\<close>. Calling what is not a function raises.
\<close>

definition call_listener :: "(cid \<Rightarrow> cmd list) \<Rightarrow> nat \<Rightarrow> fref \<Rightarrow> store \<Rightarrow> outcome option" where
  "call_listener host d f s =
     (if f < length (closures s) then
        (case closures s ! f of
           TreeListener c \<Rightarrow> forceUpdate host d c s
         | SubtreeListener c path oldEncoding \<Rightarrow>
             (let newEncoding = lodash_get (heap s) (state s) path in
              if newEncoding = oldEncoding then Some (Normal s)
              else forceUpdate host d c
                     (s\<lparr>closures := (closures s)[f := SubtreeListener c path newEncoding]\<rparr>)))
      else Some (Thrown s))"

text \<open>
  \<^verbatim>\<open>listeners.forEach(f => f())\<close> from entry \<open>i\<close> on. The set is read again at every
  step: an entry deleted before its turn is skipped, an entry added during the loop is
  visited. The loop need not end (a listener may keep adding listeners), so it runs
  on fuel \<open>n\<close>, and \<open>None\<close> is a loop still running when the fuel is spent.
  Throughout, \<open>d\<close> is the fuel given to every \<open>cloneDeep\<close>.
\<close>

fun forEach :: "(cid \<Rightarrow> cmd list) \<Rightarrow> nat \<Rightarrow> nat \<Rightarrow> nat \<Rightarrow> store \<Rightarrow> outcome option" where
  "forEach host d 0 i s = (if i < length (listeners s) then None else Some (Normal s))"
| "forEach host d (Suc n) i s =
     (if i < length (listeners s) then
        (case listeners s ! i of
           None \<Rightarrow> forEach host d n (Suc i) s
         | Some f \<Rightarrow>
             (case call_listener host d f (s\<lparr>calls := calls s @ [f]\<rparr>) of
                None \<Rightarrow> None
              | Some (Thrown s') \<Rightarrow> Some (Thrown s')
              | Some (Normal s') \<Rightarrow> forEach host d n (Suc i) s'))
      else Some (Normal s))"

text \<open>The callback \<^verbatim>\<open>notify\<close> hands to \<^verbatim>\<open>setTimeout\<close>.\<close>

definition flush :: "(cid \<Rightarrow> cmd list) \<Rightarrow> nat \<Rightarrow> nat \<Rightarrow> store \<Rightarrow> outcome option" where
  "flush host d n s =
     (case forEach host d n 0 s of
        None \<Rightarrow> None
      | Some (Thrown s') \<Rightarrow> Some (Thrown s')
      | Some (Normal s') \<Rightarrow> Some (Normal (s'\<lparr>queued := False\<rparr>)))"

text \<open>
  The event loop runs one task at a time: a piece of external code, or the oldest
  pending timer. An exception ends the task it was raised in and is reported by the
  host; the loop goes on with the store as the task left it.
\<close>

datatype event = Task "cmd list" | Timeout

fun run_event :: "(cid \<Rightarrow> cmd list) \<Rightarrow> nat \<Rightarrow> nat \<Rightarrow> event \<Rightarrow> store \<Rightarrow> outcome option" where
  "run_event host d n (Task cs) s = exec_cmds d cs s"
| "run_event host d n Timeout s =
     (if timers s = 0 then Some (Normal s) else flush host d n (s\<lparr>timers := timers s - 1\<rparr>))"

fun run_events :: "(cid \<Rightarrow> cmd list) \<Rightarrow> nat \<Rightarrow> nat \<Rightarrow> event list \<Rightarrow> store \<Rightarrow> store option" where
  "run_events host d n [] s = Some s"
| "run_events host d n (e # es) s =
     (case run_event host d n e s of
        None \<Rightarrow> None
      | Some out \<Rightarrow> run_events host d n es (store_of out))"

text \<open>A command that calls \<^verbatim>\<open>notify\<close>.\<close>

fun requests :: "cmd \<Rightarrow> bool" where
  "requests CNotify = True"
| "requests (CSet fork) = True"
| "requests CReset = True"
| "requests c = False"

section \<open>Notions used in the statements\<close>

text \<open>The content of the state, as \<^verbatim>\<open>getTree()\<close> shows it, down to depth \<open>m\<close>.\<close>

definition content :: "nat \<Rightarrow> store \<Rightarrow> tree" where
  "content m s = reify m (heap s) (getTree s)"

text \<open>The objects the state reaches within depth \<open>m\<close>.\<close>

definition state_nodes :: "nat \<Rightarrow> store \<Rightarrow> addr list" where
  "state_nodes m s = nodes m (heap s) (getTree s)"

text \<open>What a run leaves to be seen: the two logs, the flag and the pending timers.\<close>

definition observe :: "store \<Rightarrow> fref list \<times> cid list \<times> bool \<times> nat" where
  "observe s = (calls s, renders s, queued s, timers s)"

text \<open>
  \<open>copied n h v v' h'\<close>: \<open>v'\<close> in \<open>h'\<close> is a deep copy of \<open>v\<close> in \<open>h\<close>. The old
  heap is a prefix of the new one, the copy has the content of the original at every
  depth, and every object of the copy is new.
\<close>

definition copied :: "nat \<Rightarrow> heap \<Rightarrow> val \<Rightarrow> val \<Rightarrow> heap \<Rightarrow> bool" where
  "copied n h v v' h' \<longleftrightarrow>
     (\<exists>e. h' = h @ e) \<and> fits n h' v' \<and>
     (\<forall>m. reify m h' v' = reify m h v) \<and>
     (\<forall>m. \<forall>a \<in> set (nodes m h' v'). length h \<le> a)"

definition copied_props :: "nat \<Rightarrow> heap \<Rightarrow> obj \<Rightarrow> obj \<Rightarrow> heap \<Rightarrow> bool" where
  "copied_props n h ps ps' h' \<longleftrightarrow>
     (\<exists>e. h' = h @ e) \<and> list_all (\<lambda>kv. fits n h' (snd kv)) ps' \<and>
     (\<forall>m. map (\<lambda>kv. (fst kv, reify m h' (snd kv))) ps' =
           map (\<lambda>kv. (fst kv, reify m h (snd kv))) ps) \<and>
     (\<forall>m. \<forall>kv \<in> set ps'. \<forall>a \<in> set (nodes m h' (snd kv)). length h \<le> a)"

text \<open>
  \<open>gone f log s\<close>: the closure \<open>f\<close> exists, is not in the listener set, and its
  invocations so far are \<open>log\<close>.
\<close>

definition gone :: "fref \<Rightarrow> fref list \<Rightarrow> store \<Rightarrow> bool" where
  "gone f log s \<longleftrightarrow>
     f < length (closures s) \<and> Some f \<notin> set (listeners s) \<and> filter ((=) f) (calls s) = log"

text \<open>
  \<open>reaches host d s i t\<close>: the loop over the listeners, started on the store \<open>s\<close>,
  arrives at entry \<open>i\<close> with the store \<open>t\<close>, every listener invoked on the way
  having returned normally.
\<close>

inductive reaches :: "(cid \<Rightarrow> cmd list) \<Rightarrow> nat \<Rightarrow> store \<Rightarrow> nat \<Rightarrow> store \<Rightarrow> bool"
  for host :: "cid \<Rightarrow> cmd list" and d :: nat and s :: store where
  start: "reaches host d s 0 s"
| skip: "reaches host d s i t \<Longrightarrow> i < length (listeners t) \<Longrightarrow> listeners t ! i = None \<Longrightarrow>
         reaches host d s (Suc i) t"
| call: "reaches host d s i t \<Longrightarrow> i < length (listeners t) \<Longrightarrow> listeners t ! i = Some f \<Longrightarrow>
         call_listener host d f (t\<lparr>calls := calls t @ [f]\<rparr>) = Some (Normal t') \<Longrightarrow>
         reaches host d s (Suc i) t'"

section \<open>A shopping cart, for the concrete runs\<close>

text \<open>
  The caller's heap holds the initial value
  \<^verbatim>\<open>{open: false, summary: {total: 0}}\<close>: the summary at address 0, the root at
  address 1. \<open>cart_store\<close> is the store \<^verbatim>\<open>Store(initial)\<close> builds from it, with
  the copy of the summary at address 2 and the state at address 3.
\<close>

definition cart_summary :: obj where
  "cart_summary = [(''total'', Prim (JNum 0))]"

definition cart_root :: obj where
  "cart_root = [(''open'', Prim (JBool False)), (''summary'', Ref 0)]"

definition cart_heap :: heap where
  "cart_heap = [cart_summary, cart_root]"

definition cart_state :: obj where
  "cart_state = [(''open'', Prim (JBool False)), (''summary'', Ref 2)]"

definition cart_store :: store where
  "cart_store =
     \<lparr>heap = [cart_summary, cart_root, cart_summary, cart_state],
      initial = Ref 1, state = Ref 3, queued = False, listeners = [],
      closures = [], timers = 0, calls = [], renders = []\<rparr>"

text \<open>
  Three hosts: one that batches updates, one whose component 0 calls \<^verbatim>\<open>notify\<close>
  when told to update, one whose component 0 raises.
\<close>

definition batched_host :: "cid \<Rightarrow> cmd list" where
  "batched_host c = []"

definition renotifying_host :: "cid \<Rightarrow> cmd list" where
  "renotifying_host c = (if c = 0 then [CNotify] else [])"

definition throwing_host :: "cid \<Rightarrow> cmd list" where
  "throwing_host c = (if c = 0 then [CThrow] else [])"

text \<open>
  The cart with components 0 and 1 mounted on \<^verbatim>\<open>useTree\<close> and a flush under way
  (its timer taken off the queue, the flag still set).
\<close>

definition two_listeners :: store where
  "two_listeners =
     cart_store\<lparr>queued := True, listeners := [Some 0, Some 1],
                closures := [TreeListener 0, TreeListener 1]\<rparr>"

text \<open>
  The cart with component 7 mounted on \<^verbatim>\<open>useSubtree('summary.total')\<close>, and then
  \<^verbatim>\<open>getTree().summary.total = 5\<close>.
\<close>

definition watching :: store where
  "watching = useSubtree_effect 7 [''summary'', ''total''] cart_store"

definition watching_changed :: store where
  "watching_changed = write_prop 2 ''total'' (Prim (JNum 5)) watching"

text \<open>
  The cart with component 0 mounted on \<^verbatim>\<open>useTree\<close>, then component 7 mounted on
  \<^verbatim>\<open>useSubtree('summary.total')\<close>, then \<^verbatim>\<open>getTree().summary.total = 5\<close>, and
  a flush under way.
\<close>

definition mixed :: store where
  "mixed =
     cart_store\<lparr>heap := [cart_summary, cart_root, [(''total'', Prim (JNum 5))], cart_state],
                queued := True, listeners := [Some 0, Some 1],
                closures := [TreeListener 0,
                             SubtreeListener 7 [''summary'', ''total''] (Prim (JNum 0))]\<rparr>"

text \<open>
  The cart with components 0 and 1 mounted on \<^verbatim>\<open>useTree\<close>, after a flush in which
  component 0 raised: the flag is set and no timer is pending.
\<close>

definition stuck :: store where
  "stuck = two_listeners\<lparr>calls := [0], renders := [0]\<rparr>"

text \<open>
  The cart after the caller has built \<^verbatim>\<open>{summary: {total: 9}}\<close>: the new summary
  at address 4, the fork at address 5.
\<close>

definition fork_summary :: obj where
  "fork_summary = [(''total'', Prim (JNum 9))]"

definition fork_root :: obj where
  "fork_root = [(''summary'', Ref 4)]"

definition forked :: store where
  "forked = cart_store\<lparr>heap := heap cart_store @ [fork_summary, fork_root]\<rparr>"

section \<open>Basic facts\<close>

lemma set_add_mem: "Some x \<in> set (set_add y es) \<longleftrightarrow> x = y \<or> Some x \<in> set es"
  by (auto simp: set_add_def)

lemma set_delete_mem: "Some x \<in> set (set_delete y es) \<longleftrightarrow> x \<noteq> y \<and> Some x \<in> set es"
  by (auto simp: set_delete_def)

lemma set_delete_idem: "set_delete f (set_delete f es) = set_delete f es"
  by (induction es) (simp_all add: set_delete_def)

lemma set_delete_absent: "Some f \<notin> set es \<Longrightarrow> set_delete f es = es"
  by (induction es) (auto simp: set_delete_def)

lemma live_mem: "x \<in> set (live es) \<longleftrightarrow> Some x \<in> set es"
  by (induction es) (auto simp: live_def split: option.splits)

lemma live_set_add:
  "live (set_add f es) = (if f \<in> set (live es) then live es else live es @ [f])"
  by (simp add: set_add_def live_mem) (simp add: live_def)

lemma count_list_distinct: "distinct xs \<Longrightarrow> x \<in> set xs \<Longrightarrow> count_list xs x = 1"
  by (induction xs) auto

lemma live_set_delete: "live (set_delete f es) = removeAll f (live es)"
  by (induction es) (auto simp: set_delete_def live_def split: option.splits)

lemma notify_keeps [simp]:
  "listeners (notify s) = listeners s" "closures (notify s) = closures s"
  "calls (notify s) = calls s" "renders (notify s) = renders s"
  "heap (notify s) = heap s" "state (notify s) = state s" "initial (notify s) = initial s"
  by (simp_all add: notify_def)

lemma write_prop_keeps [simp]:
  "listeners (write_prop a k v s) = listeners s" "closures (write_prop a k v s) = closures s"
  "calls (write_prop a k v s) = calls s" "renders (write_prop a k v s) = renders s"
  "queued (write_prop a k v s) = queued s" "timers (write_prop a k v s) = timers s"
  "state (write_prop a k v s) = state s" "initial (write_prop a k v s) = initial s"
  by (simp_all add: write_prop_def)

lemmas store_ops =
  set_store_def reset_def useTree_effect_def useSubtree_effect_def subscribe_def
  unsubscribe_def

text \<open>
  A property that every command keeps is kept by a list of commands, whether it ends
  normally or by an exception.
\<close>

lemma exec_cmds_rule:
  assumes run: "exec_cmds d cs s = Some out"
    and init: "P s"
    and step: "\<And>c s o1. P s \<Longrightarrow> exec_cmd d c s = Some o1 \<Longrightarrow> P (store_of o1)"
  shows "P (store_of out)"
  using run init
proof (induction cs arbitrary: s)
  case Nil
  then show ?case by auto
next
  case (Cons c cs)
  from Cons.prems(1) obtain o1 where o1: "exec_cmd d c s = Some o1"
    by (cases "exec_cmd d c s") simp_all
  from step[OF Cons.prems(2) o1] have p1: "P (store_of o1)" .
  show ?case
  proof (cases o1)
    case (Thrown s1)
    with Cons.prems(1) o1 have "out = Thrown s1" by simp
    with p1 Thrown show ?thesis by simp
  next
    case (Normal s1)
    with Cons.prems(1) o1 have "exec_cmds d cs s1 = Some out" by simp
    from Cons.IH[OF this] p1 Normal show ?thesis by simp
  qed
qed

lemma exec_cmds_Cons_Normal:
  assumes "exec_cmds d (c # cs) s = Some (Normal s')"
  obtains s1 where "exec_cmd d c s = Some (Normal s1)" "exec_cmds d cs s1 = Some (Normal s')"
proof (cases "exec_cmd d c s")
  case None
  with assms show ?thesis by simp
next
  case (Some o1)
  with assms that show ?thesis by (cases o1) simp_all
qed

lemma exec_cmd_logs:
  "calls s = cl \<and> renders s = rn \<Longrightarrow> exec_cmd d c s = Some out \<Longrightarrow>
     calls (store_of out) = cl \<and> renders (store_of out) = rn"
  by (cases c) (auto simp: store_ops split: option.splits prod.splits)

lemma exec_cmds_logs:
  assumes "exec_cmds d cs s = Some out"
  shows "calls (store_of out) = calls s \<and> renders (store_of out) = renders s"
  by (rule exec_cmds_rule[OF assms, where P = "\<lambda>t. calls t = calls s \<and> renders t = renders s"])
     (simp, rule exec_cmd_logs)

text \<open>The three ways a call of a listener can go.\<close>

lemma call_listener_cases:
  assumes "call_listener host d f s = Some out"
  obtains (not_a_function) "out = Thrown s"
  | (unchanged) "out = Normal s"
  | (update) c cl where
      "exec_cmds d (host c) (s\<lparr>closures := cl, renders := renders s @ [c]\<rparr>) = Some out"
      "length cl = length (closures s)"
      "\<And>g. g \<noteq> f \<Longrightarrow> cl ! g = closures s ! g"
proof (cases "f < length (closures s)")
  case False
  with assms have "out = Thrown s" by (simp add: call_listener_def)
  then show ?thesis by (rule not_a_function)
next
  case True
  show ?thesis
  proof (cases "closures s ! f")
    case (TreeListener c)
    with True assms
    have "exec_cmds d (host c) (s\<lparr>closures := closures s, renders := renders s @ [c]\<rparr>) = Some out"
      by (simp add: call_listener_def forceUpdate_def)
    then show ?thesis by (rule update) simp_all
  next
    case (SubtreeListener c path old)
    show ?thesis
    proof (cases "lodash_get (heap s) (state s) path = old")
      case same: True
      with True SubtreeListener assms have "out = Normal s" by (simp add: call_listener_def)
      then show ?thesis by (rule unchanged)
    next
      case False
      with True SubtreeListener assms
      have "exec_cmds d (host c)
              (s\<lparr>closures := (closures s)[f := SubtreeListener c path (lodash_get (heap s) (state s) path)],
                 renders := renders s @ [c]\<rparr>) = Some out"
        by (simp add: call_listener_def forceUpdate_def)
      then show ?thesis by (rule update) simp_all
    qed
  qed
qed

text \<open>The loop over the listeners, one step at a time.\<close>

lemma forEach_Suc_empty:
  "i < length (listeners s) \<Longrightarrow> listeners s ! i = None \<Longrightarrow>
     forEach host d (Suc n) i s = forEach host d n (Suc i) s"
  by simp

lemma forEach_Suc_call:
  "i < length (listeners s) \<Longrightarrow> listeners s ! i = Some f \<Longrightarrow>
     forEach host d (Suc n) i s =
       (case call_listener host d f (s\<lparr>calls := calls s @ [f]\<rparr>) of
          None \<Rightarrow> None
        | Some (Thrown s') \<Rightarrow> Some (Thrown s')
        | Some (Normal s') \<Rightarrow> forEach host d n (Suc i) s')"
  by simp

lemma forEach_end:
  "\<not> i < length (listeners s) \<Longrightarrow> forEach host d n i s = Some (Normal s)"
  by (cases n) simp_all

text \<open>
  A property that every call of a listener in the set keeps is kept by the loop.
\<close>

lemma forEach_rule:
  assumes run: "forEach host d n i s = Some out"
    and init: "P s"
    and step: "\<And>f s o1. P s \<Longrightarrow> Some f \<in> set (listeners s) \<Longrightarrow>
                 call_listener host d f (s\<lparr>calls := calls s @ [f]\<rparr>) = Some o1 \<Longrightarrow>
                 P (store_of o1)"
  shows "P (store_of out)"
  using run init
proof (induction n arbitrary: i s)
  case 0
  from "0.prems"(1) have "out = Normal s" by (auto split: if_splits)
  with "0.prems"(2) show ?case by simp
next
  case (Suc n)
  show ?case
  proof (cases "i < length (listeners s)")
    case False
    from Suc.prems(1) forEach_end[OF False, of host d "Suc n"] have "out = Normal s" by auto
    with Suc.prems(2) show ?thesis by simp
  next
    case True
    show ?thesis
    proof (cases "listeners s ! i")
      case None
      from Suc.prems(1) forEach_Suc_empty[OF True None]
      have "forEach host d n (Suc i) s = Some out" by simp
      from Suc.IH[OF this Suc.prems(2)] show ?thesis .
    next
      case (Some f)
      let ?s = "s\<lparr>calls := calls s @ [f]\<rparr>"
      note eq = forEach_Suc_call[OF True Some, of host d n]
      from Suc.prems(1) eq obtain o1 where o1: "call_listener host d f ?s = Some o1"
        by (cases "call_listener host d f ?s") simp_all
      from True have "listeners s ! i \<in> set (listeners s)" by simp
      with Some have mem: "Some f \<in> set (listeners s)" by simp
      from step[OF Suc.prems(2) mem o1] have p1: "P (store_of o1)" .
      show ?thesis
      proof (cases o1)
        case (Thrown s1)
        with Suc.prems(1) eq o1 have "out = Thrown s1" by simp
        with p1 Thrown show ?thesis by simp
      next
        case (Normal s1)
        with Suc.prems(1) eq o1 have "forEach host d n (Suc i) s1 = Some out" by simp
        from Suc.IH[OF this] p1 Normal show ?thesis by simp
      qed
    qed
  qed
qed

lemma call_listener_calls:
  assumes "call_listener host d f s = Some out"
  shows "calls (store_of out) = calls s"
  using assms
proof (cases rule: call_listener_cases)
  case not_a_function
  then show ?thesis by simp
next
  case unchanged
  then show ?thesis by simp
next
  case (update c cl)
  from exec_cmds_logs[OF update(1)] show ?thesis by simp
qed

text \<open>The loop from the start is the loop from any entry it arrives at.\<close>

lemma reaches_forEach:
  "reaches host d s i t \<Longrightarrow> forEach host d (i + k) 0 s = forEach host d k i t"
proof (induction arbitrary: k rule: reaches.induct)
  case start
  show ?case by simp
next
  case (skip i t)
  have "forEach host d (Suc i + k) 0 s = forEach host d (i + Suc k) 0 s" by simp
  also have "\<dots> = forEach host d (Suc k) i t" by (rule skip.IH)
  also have "\<dots> = forEach host d k (Suc i) t" by (rule forEach_Suc_empty[OF skip.hyps(2,3)])
  finally show ?case .
next
  case (call i t f t')
  have "forEach host d (Suc i + k) 0 s = forEach host d (i + Suc k) 0 s" by simp
  also have "\<dots> = forEach host d (Suc k) i t" by (rule call.IH)
  also have "\<dots> = forEach host d k (Suc i) t'"
    using forEach_Suc_call[OF call.hyps(2,3), of host d k] call.hyps(4) by simp
  finally show ?case .
qed

lemma flush_Normal:
  "flush host d n s = Some (Normal s') \<longleftrightarrow>
     (\<exists>s1. forEach host d n 0 s = Some (Normal s1) \<and> s' = s1\<lparr>queued := False\<rparr>)"
  by (auto simp: flush_def split: option.splits outcome.splits)

lemma flush_Thrown:
  "flush host d n s = Some (Thrown s') \<longleftrightarrow> forEach host d n 0 s = Some (Thrown s')"
  by (auto simp: flush_def split: option.splits outcome.splits)

text \<open>The cart store is the one the constructor builds.\<close>

lemma cart_store_constructed: "Store 2 cart_heap (Ref 1) = Some cart_store"
  by code_simp

lemma two_listeners_reached:
  "run_event batched_host 2 5 (Task [CUseTree 0, CUseTree 1, CNotify]) cart_store =
     Some (Normal (two_listeners\<lparr>timers := 1\<rparr>))"
  by code_simp

section \<open>The listener set\<close>

text \<open>
  Claim C4, as the specification states it: subscribing the same function reference
  twice creates two independent entries, each removable only by its own unsubscribe
  function. The listeners are a \<^verbatim>\<open>Set\<close>, so this fails: after two subscriptions of
  reference 0 the set has one entry, and the first unsubscribe function empties it
  although the second was never called.
\<close>

theorem subscribe_twice_counterexample:
  "live (listeners (subscribe 0 (subscribe 0 cart_store))) = [0] \<and>
   live (listeners (unsubscribe 0 (subscribe 0 (subscribe 0 cart_store)))) = []"
  by code_simp

text \<open>
  Claim C4, amended: \<^verbatim>\<open>subscribe\<close> adds the function reference to a set. A
  reference that is not registered gets one entry, at the end; a reference that is
  already registered gets no second entry, so after any number of subscriptions it
  has exactly one. The unsubscribe function removes that entry, whichever of the
  subscriptions returned it, and the entries of other references are not touched by
  subscribing or unsubscribing this one. The entries are the live slots of the set;
  no reference occurs twice among them in a store built by the constructor, which is
  the hypothesis of the count.
\<close>

theorem subscribe_is_set_insertion:
  "live (listeners (subscribe f s)) =
     (if f \<in> set (live (listeners s)) then live (listeners s) else live (listeners s) @ [f]) \<and>
   live (listeners (unsubscribe f s)) = removeAll f (live (listeners s)) \<and>
   f \<in> set (live (listeners (subscribe f s))) \<and>
   live (listeners (subscribe f (subscribe f s))) = live (listeners (subscribe f s)) \<and>
   f \<notin> set (live (listeners (unsubscribe f (subscribe f (subscribe f s))))) \<and>
   (distinct (live (listeners s)) \<longrightarrow>
      distinct (live (listeners (subscribe f s))) \<and>
      distinct (live (listeners (unsubscribe f s))) \<and>
      count_list (live (listeners (subscribe f s))) f = 1 \<and>
      count_list (live (listeners (subscribe f (subscribe f s)))) f = 1) \<and>
   (g \<noteq> f \<longrightarrow>
      (g \<in> set (live (listeners (unsubscribe f s))) \<longleftrightarrow> g \<in> set (live (listeners s))) \<and>
      (g \<in> set (live (listeners (subscribe f s))) \<longleftrightarrow> g \<in> set (live (listeners s))))"
proof -
  let ?l = "live (listeners s)"
  have add: "live (listeners (subscribe f s)) = (if f \<in> set ?l then ?l else ?l @ [f])"
    by (simp add: subscribe_def live_set_add)
  have del: "live (listeners (unsubscribe f s)) = removeAll f ?l"
    by (simp add: unsubscribe_def live_set_delete)
  have mem: "f \<in> set (live (listeners (subscribe f s)))"
    by (simp add: add)
  have twice: "live (listeners (subscribe f (subscribe f s))) = live (listeners (subscribe f s))"
    by (simp add: subscribe_def live_set_add)
  have none: "f \<notin> set (live (listeners (unsubscribe f (subscribe f (subscribe f s)))))"
    by (simp add: unsubscribe_def live_set_delete)
  have dist: "distinct (live (listeners (subscribe f s))) \<and>
      distinct (live (listeners (unsubscribe f s))) \<and>
      count_list (live (listeners (subscribe f s))) f = 1 \<and>
      count_list (live (listeners (subscribe f (subscribe f s)))) f = 1"
    if d: "distinct ?l"
  proof -
    from d have d1: "distinct (live (listeners (subscribe f s)))" by (simp add: add)
    from d have d2: "distinct (live (listeners (unsubscribe f s)))"
      by (simp add: del distinct_removeAll)
    from d1 mem have c1: "count_list (live (listeners (subscribe f s))) f = 1"
      by (simp add: count_list_distinct)
    from d1 d2 c1 twice show ?thesis by simp
  qed
  have other: "(g \<in> set (live (listeners (unsubscribe f s))) \<longleftrightarrow> g \<in> set ?l) \<and>
      (g \<in> set (live (listeners (subscribe f s))) \<longleftrightarrow> g \<in> set ?l)"
    if "g \<noteq> f"
    using that by (auto simp: add del)
  from add del mem twice none dist other show ?thesis by blast
qed

text \<open>
  On the cart: the first subscription of reference 0 makes its one entry, the second
  adds none, and with listeners 0 and 1 registered, unsubscribing 0 leaves 1.
\<close>

theorem subscribe_is_set_insertion_witness:
  "distinct (live (listeners cart_store)) \<and> (1::nat) \<noteq> 0 \<and>
   live (listeners (subscribe 0 cart_store)) = [0] \<and>
   count_list (live (listeners (subscribe 0 (subscribe 0 cart_store)))) 0 = 1 \<and>
   live (listeners (unsubscribe 0 (subscribe 0 (subscribe 0 cart_store)))) = [] \<and>
   1 \<in> set (live (listeners two_listeners)) \<and>
   1 \<in> set (live (listeners (unsubscribe 0 two_listeners)))"
proof -
  have d: "distinct (live (listeners cart_store))" by code_simp
  have ne: "(1::nat) \<noteq> 0" by simp
  have e: "live (listeners cart_store) = []" by code_simp
  have mem: "1 \<in> set (live (listeners two_listeners))" by code_simp
  note a = subscribe_is_set_insertion[of 0 cart_store 1]
  from a e have 1: "live (listeners (subscribe 0 cart_store)) = [0]" by simp
  from a d have 2: "count_list (live (listeners (subscribe 0 (subscribe 0 cart_store)))) 0 = 1"
    by blast
  from subscribe_is_set_insertion[of 0 "subscribe 0 (subscribe 0 cart_store)" 1] a 1
  have 3: "live (listeners (unsubscribe 0 (subscribe 0 (subscribe 0 cart_store)))) = []"
    by simp
  from subscribe_is_set_insertion[of 0 two_listeners 1] ne mem
  have 4: "1 \<in> set (live (listeners (unsubscribe 0 two_listeners)))" by simp
  from d ne 1 2 3 mem 4 show ?thesis by blast
qed

section \<open>The pending-flush flag\<close>

text \<open>While the flag is set, nothing external code does clears it or adds a timer.\<close>

lemma exec_cmd_queued:
  "queued s \<and> timers s = t \<Longrightarrow> exec_cmd d c s = Some out \<Longrightarrow>
     queued (store_of out) \<and> timers (store_of out) = t"
  by (cases c) (auto simp: store_ops notify_def split: option.splits prod.splits)

lemma exec_cmds_queued:
  assumes "queued s" and "exec_cmds d cs s = Some out"
  shows "queued (store_of out) \<and> timers (store_of out) = timers s"
  by (rule exec_cmds_rule[OF assms(2), where P = "\<lambda>t. queued t \<and> timers t = timers s"])
     (simp add: assms(1), rule exec_cmd_queued)

lemma call_listener_queued:
  assumes "queued s" and "call_listener host d f s = Some out"
  shows "queued (store_of out) \<and> timers (store_of out) = timers s"
  using assms(2)
proof (cases rule: call_listener_cases)
  case not_a_function
  with assms(1) show ?thesis by simp
next
  case unchanged
  with assms(1) show ?thesis by simp
next
  case (update c cl)
  from assms(1) have "queued (s\<lparr>closures := cl, renders := renders s @ [c]\<rparr>)" by simp
  from exec_cmds_queued[OF this update(1)] show ?thesis by simp
qed

lemma forEach_queued:
  assumes "queued s" and "forEach host d n i s = Some out"
  shows "queued (store_of out) \<and> timers (store_of out) = timers s"
proof (rule forEach_rule[OF assms(2), where P = "\<lambda>t. queued t \<and> timers t = timers s"])
  show "queued s \<and> timers s = timers s" using assms(1) by simp
next
  fix f t o1
  assume t: "queued t \<and> timers t = timers s"
    and call: "call_listener host d f (t\<lparr>calls := calls t @ [f]\<rparr>) = Some o1"
  from t have "queued (t\<lparr>calls := calls t @ [f]\<rparr>)" by simp
  from call_listener_queued[OF this call] t
  show "queued (store_of o1) \<and> timers (store_of o1) = timers s" by simp
qed

lemma reaches_queued:
  "reaches host d s i t \<Longrightarrow> queued s \<Longrightarrow> queued t \<and> timers t = timers s"
proof (induction rule: reaches.induct)
  case start
  then show ?case by simp
next
  case (skip i t)
  then show ?case by simp
next
  case (call i t f t')
  from call.IH[OF call.prems] have "queued (t\<lparr>calls := calls t @ [f]\<rparr>)"
    and tm: "timers t = timers s" by simp_all
  from call_listener_queued[OF this(1) call.hyps(4)] tm show ?case by simp
qed

lemma Store_listeners: "Store d h init = Some s \<Longrightarrow> live (listeners s) = []"
  by (auto simp: Store_def live_def split: option.splits)

text \<open>
  Claim C1, as the specification states it: the flush clears the flag before it
  invokes any listener, so a listener that calls \<^verbatim>\<open>notify\<close> during a flush gets a
  new flush scheduled. The code runs \<^verbatim>\<open>listeners.forEach(f => f())\<close> first and
  \<^verbatim>\<open>queued = false\<close> after it (in \<^verbatim>\<open>notify\<close>, and the same in \<^verbatim>\<open>update\<close> of
  the earlier version). In the run below component 0 is mounted, \<^verbatim>\<open>notify\<close> is
  called, and the timer fires; the listener runs and its component calls \<^verbatim>\<open>notify\<close>
  again, yet when the flush is over no timer is pending (the four components are the
  listeners invoked, the components told to update, the flag and the pending timers).
\<close>

theorem notify_during_flush_counterexample:
  "map_option observe
     (run_events renotifying_host 2 5 [Task [CUseTree 0, CNotify], Timeout] cart_store) =
   Some ([0], [0], False, 0)"
  by code_simp

text \<open>
  Claim C1, amended: the flush invokes the listeners first and clears the flag last.
  For as long as the listeners run the flag is still set, and \<^verbatim>\<open>notify\<close> with the
  flag set does nothing, so a \<^verbatim>\<open>notify\<close> called by a listener schedules nothing:
  whatever the listeners do, the loop ends with the flag set and as many timers
  pending as before. A flush that ends normally then clears the flag, so that the
  next \<^verbatim>\<open>notify\<close> schedules a flush.
\<close>

theorem flush_clears_flag_last:
  "queued s \<Longrightarrow>
     notify s = s \<and>
     (forEach host d n i s = Some out \<longrightarrow>
        queued (store_of out) \<and> timers (store_of out) = timers s) \<and>
     (flush host d n s = Some (Normal s') \<longrightarrow>
        \<not> queued s' \<and> timers s' = timers s \<and> timers (notify s') = timers s + 1)"
proof (intro conjI impI)
  assume q: "queued s"
  then show "notify s = s" by (simp add: notify_def)
  { assume "forEach host d n i s = Some out"
    from forEach_queued[OF q this]
    show "queued (store_of out)" and "timers (store_of out) = timers s" by simp_all }
  assume "flush host d n s = Some (Normal s')"
  then obtain s1 where fe: "forEach host d n 0 s = Some (Normal s1)"
    and s': "s' = s1\<lparr>queued := False\<rparr>"
    unfolding flush_Normal by blast
  from forEach_queued[OF q fe] s'
  show "\<not> queued s'" and "timers s' = timers s" and "timers (notify s') = timers s + 1"
    by (simp_all add: notify_def)
qed

theorem flush_clears_flag_last_witness:
  "queued two_listeners \<and>
   forEach renotifying_host 2 5 0 two_listeners =
     Some (Normal (two_listeners\<lparr>calls := [0, 1], renders := [0, 1]\<rparr>)) \<and>
   flush renotifying_host 2 5 two_listeners =
     Some (Normal (two_listeners\<lparr>calls := [0, 1], renders := [0, 1], queued := False\<rparr>)) \<and>
   timers (two_listeners\<lparr>calls := [0, 1], renders := [0, 1], queued := False\<rparr>) =
     timers two_listeners"
proof -
  have q: "queued two_listeners" by code_simp
  have fe: "forEach renotifying_host 2 5 0 two_listeners =
     Some (Normal (two_listeners\<lparr>calls := [0, 1], renders := [0, 1]\<rparr>))" by code_simp
  have fl: "flush renotifying_host 2 5 two_listeners =
     Some (Normal (two_listeners\<lparr>calls := [0, 1], renders := [0, 1], queued := False\<rparr>))"
    by code_simp
  from flush_clears_flag_last[OF q, of renotifying_host 2 5 0
      "Normal (two_listeners\<lparr>calls := [0, 1], renders := [0, 1]\<rparr>)"
      "two_listeners\<lparr>calls := [0, 1], renders := [0, 1], queued := False\<rparr>"] q fe fl
  show ?thesis by simp
qed

section \<open>A listener that raises\<close>

lemma forEach_thrown:
  "forEach host d n i s = Some (Thrown s') \<Longrightarrow>
     \<exists>f s1. Some f \<in> set (listeners s1) \<and>
       call_listener host d f (s1\<lparr>calls := calls s1 @ [f]\<rparr>) = Some (Thrown s')"
proof (induction n arbitrary: i s)
  case 0
  then show ?case by (simp split: if_splits)
next
  case (Suc n)
  show ?case
  proof (cases "i < length (listeners s)")
    case False
    from Suc.prems forEach_end[OF False, of host d "Suc n"] show ?thesis by simp
  next
    case True
    show ?thesis
    proof (cases "listeners s ! i")
      case None
      from Suc.prems forEach_Suc_empty[OF True None]
      have "forEach host d n (Suc i) s = Some (Thrown s')" by simp
      from Suc.IH[OF this] show ?thesis .
    next
      case (Some f)
      let ?s = "s\<lparr>calls := calls s @ [f]\<rparr>"
      note eq = forEach_Suc_call[OF True Some, of host d n]
      from Suc.prems eq obtain o1 where o1: "call_listener host d f ?s = Some o1"
        by (cases "call_listener host d f ?s") simp_all
      from True have "listeners s ! i \<in> set (listeners s)" by simp
      with Some have mem: "Some f \<in> set (listeners s)" by simp
      show ?thesis
      proof (cases o1)
        case (Thrown s1)
        with Suc.prems eq o1 have "s1 = s'" by simp
        with Thrown o1 mem show ?thesis by blast
      next
        case (Normal s1)
        with Suc.prems eq o1 have "forEach host d n (Suc i) s1 = Some (Thrown s')" by simp
        from Suc.IH[OF this] show ?thesis .
      qed
    qed
  qed
qed

text \<open>
  Claim C2, as the specification states it: an exception raised by one listener does
  not keep the remaining listeners of the flush from being invoked, and leaves the
  flag cleared. The flush has no handler around \<^verbatim>\<open>f()\<close>. In the run below
  components 0 and 1 are mounted, \<^verbatim>\<open>notify\<close> is called and the timer fires;
  component 0 raises, listener 1 is never invoked, the flag stays set, and the later
  \<^verbatim>\<open>notify\<close> schedules no timer.
\<close>

theorem listener_exception_counterexample:
  "map_option observe
     (run_events throwing_host 2 5
        [Task [CUseTree 0, CUseTree 1, CNotify], Timeout, Task [CNotify]] cart_store) =
   Some ([0], [0], True, 0)"
  by code_simp

text \<open>
  Claim C2, amended: an exception raised by a listener is not caught by the flush.
  Whenever a flush gets to a listener that raises, the flush ends by that exception,
  in the store as the raising listener left it: the last listener invoked is the one
  that raised, so no listener after it is invoked in that flush, and the statement
  clearing the flag is not reached, so the flag stays set and a later \<^verbatim>\<open>notify\<close>
  does nothing. Conversely a flush that ends by an exception ends so because a
  listener raised, and only a flush in which no listener raises ends with the flag
  cleared.
\<close>

theorem listener_exception_aborts_flush:
  "(reaches host d s i t \<longrightarrow> i < length (listeners t) \<longrightarrow> listeners t ! i = Some f \<longrightarrow>
    call_listener host d f (t\<lparr>calls := calls t @ [f]\<rparr>) = Some (Thrown t') \<longrightarrow>
      flush host d (i + Suc n) s = Some (Thrown t') \<and>
      calls t' = calls t @ [f] \<and>
      (queued s \<longrightarrow> queued t' \<and> notify t' = t')) \<and>
   (flush host d m s = Some (Thrown s') \<longrightarrow>
      (\<exists>f s1. Some f \<in> set (listeners s1) \<and>
         call_listener host d f (s1\<lparr>calls := calls s1 @ [f]\<rparr>) = Some (Thrown s')) \<and>
      (queued s \<longrightarrow> queued s')) \<and>
   (flush host d m s = Some (Normal s') \<longrightarrow> \<not> queued s')"
proof (intro conjI impI)
  assume r: "reaches host d s i t" and i: "i < length (listeners t)"
    and f: "listeners t ! i = Some f"
    and c: "call_listener host d f (t\<lparr>calls := calls t @ [f]\<rparr>) = Some (Thrown t')"
  from forEach_Suc_call[OF i f, of host d n] c
  have "forEach host d (Suc n) i t = Some (Thrown t')" by simp
  with reaches_forEach[OF r, of "Suc n"]
  have "forEach host d (i + Suc n) 0 s = Some (Thrown t')" by simp
  then show "flush host d (i + Suc n) s = Some (Thrown t')" unfolding flush_Thrown .
  from call_listener_calls[OF c] show "calls t' = calls t @ [f]" by simp
  assume q: "queued s"
  from reaches_queued[OF r q] have "queued (t\<lparr>calls := calls t @ [f]\<rparr>)" by simp
  from call_listener_queued[OF this c] show "queued t'" and "notify t' = t'"
    by (simp_all add: notify_def)
next
  assume "flush host d m s = Some (Thrown s')"
  then have fe: "forEach host d m 0 s = Some (Thrown s')" unfolding flush_Thrown .
  from forEach_thrown[OF fe]
  show "\<exists>f s1. Some f \<in> set (listeners s1) \<and>
         call_listener host d f (s1\<lparr>calls := calls s1 @ [f]\<rparr>) = Some (Thrown s')" .
  assume "queued s"
  from forEach_queued[OF this fe] show "queued s'" by simp
next
  assume "flush host d m s = Some (Normal s')"
  then show "\<not> queued s'" unfolding flush_Normal by auto
qed

text \<open>
  The flush of the cart with listeners 0 and 1: when component 0 raises, the flush
  ends by the exception with listener 0 the only one invoked and the flag set; when
  none raises, both are invoked and the flag is cleared.
\<close>

theorem listener_exception_aborts_flush_witness:
  "reaches throwing_host 2 two_listeners 0 two_listeners \<and>
   0 < length (listeners two_listeners) \<and> listeners two_listeners ! 0 = Some 0 \<and>
   call_listener throwing_host 2 0 (two_listeners\<lparr>calls := calls two_listeners @ [0]\<rparr>) =
     Some (Thrown stuck) \<and>
   queued two_listeners \<and>
   flush throwing_host 2 5 two_listeners = Some (Thrown stuck) \<and>
   calls stuck = calls two_listeners @ [0] \<and> queued stuck \<and> notify stuck = stuck \<and>
   flush batched_host 2 5 two_listeners =
     Some (Normal (two_listeners\<lparr>calls := [0, 1], renders := [0, 1], queued := False\<rparr>)) \<and>
   \<not> queued (two_listeners\<lparr>calls := [0, 1], renders := [0, 1], queued := False\<rparr>)"
proof -
  have r: "reaches throwing_host 2 two_listeners 0 two_listeners" by (rule reaches.start)
  have i: "0 < length (listeners two_listeners)" by code_simp
  have f: "listeners two_listeners ! 0 = Some 0" by code_simp
  have c: "call_listener throwing_host 2 0 (two_listeners\<lparr>calls := calls two_listeners @ [0]\<rparr>) =
     Some (Thrown stuck)" by code_simp
  have q: "queued two_listeners" by code_simp
  have n: "flush batched_host 2 5 two_listeners =
     Some (Normal (two_listeners\<lparr>calls := [0, 1], renders := [0, 1], queued := False\<rparr>))"
    by code_simp
  from listener_exception_aborts_flush[of throwing_host 2 two_listeners 0 two_listeners 0
      stuck 4] r i f c q
  have 1: "flush throwing_host 2 5 two_listeners = Some (Thrown stuck)"
    and 2: "calls stuck = calls two_listeners @ [0]"
    and 3: "queued stuck" and 4: "notify stuck = stuck"
    by simp_all
  from listener_exception_aborts_flush[where host = batched_host and d = 2 and m = 5
      and s = two_listeners
      and s' = "two_listeners\<lparr>calls := [0, 1], renders := [0, 1], queued := False\<rparr>"] n
  have 5: "\<not> queued (two_listeners\<lparr>calls := [0, 1], renders := [0, 1], queued := False\<rparr>)"
    by blast
  from r i f c q 1 2 3 4 n 5 show ?thesis by blast
qed

section \<open>Coalescing\<close>

text \<open>
  Between tasks, and as long as no flush has been cut short by an exception, the flag
  is set exactly when one timer is pending.
\<close>

lemma exec_cmd_consistent:
  "timers s = (if queued s then 1 else 0) \<Longrightarrow> exec_cmd d c s = Some out \<Longrightarrow>
     timers (store_of out) = (if queued (store_of out) then 1 else 0)"
  by (cases c) (auto simp: store_ops notify_def split: option.splits prod.splits if_splits)

lemma exec_cmds_consistent:
  assumes "timers s = (if queued s then 1 else 0)" and "exec_cmds d cs s = Some out"
  shows "timers (store_of out) = (if queued (store_of out) then 1 else 0)"
  by (rule exec_cmds_rule[OF assms(2), where P = "\<lambda>t. timers t = (if queued t then 1 else 0)"])
     (fact assms(1), rule exec_cmd_consistent)

lemma Store_consistent:
  "Store d h init = Some s \<Longrightarrow> timers s = (if queued s then 1 else 0)"
  by (auto simp: Store_def split: option.splits)

lemma run_event_consistent:
  assumes "timers s = (if queued s then 1 else 0)"
    and "run_event host d n e s = Some (Normal s')"
  shows "timers s' = (if queued s' then 1 else 0)"
proof (cases e)
  case (Task cs)
  with assms(2) have "exec_cmds d cs s = Some (Normal s')" by simp
  from exec_cmds_consistent[OF assms(1) this] show ?thesis by simp
next
  case Timeout
  show ?thesis
  proof (cases "timers s = 0")
    case True
    with Timeout assms show ?thesis by simp
  next
    case False
    with assms(1) have q: "queued (s\<lparr>timers := timers s - 1\<rparr>)" and t: "timers s = 1"
      by (simp_all split: if_splits)
    from False Timeout assms(2)
    have "flush host d n (s\<lparr>timers := timers s - 1\<rparr>) = Some (Normal s')" by simp
    then obtain s1 where fe: "forEach host d n 0 (s\<lparr>timers := timers s - 1\<rparr>) = Some (Normal s1)"
      and s': "s' = s1\<lparr>queued := False\<rparr>"
      unfolding flush_Normal by blast
    from forEach_queued[OF q fe] s' t show ?thesis by simp
  qed
qed

lemma exec_cmd_requests:
  "requests c \<Longrightarrow> exec_cmd d c s = Some (Normal s') \<Longrightarrow> queued s'"
  by (cases c) (auto simp: store_ops notify_def split: option.splits prod.splits if_splits)

lemma exec_cmds_requests:
  "\<exists>c \<in> set cs. requests c \<Longrightarrow> exec_cmds d cs s = Some (Normal s') \<Longrightarrow> queued s'"
proof (induction cs arbitrary: s)
  case Nil
  then show ?case by simp
next
  case (Cons c cs)
  from Cons.prems(2) obtain s1 where o1: "exec_cmd d c s = Some (Normal s1)"
    and rest: "exec_cmds d cs s1 = Some (Normal s')"
    by (rule exec_cmds_Cons_Normal)
  show ?case
  proof (cases "requests c")
    case True
    from exec_cmd_requests[OF True o1] have "queued s1" .
    from exec_cmds_queued[OF this rest] show ?thesis by simp
  next
    case False
    with Cons.prems(1) have "\<exists>c \<in> set cs. requests c" by simp
    from Cons.IH[OF this rest] show ?thesis .
  qed
qed

lemma timeouts_idle:
  "timers s = 0 \<Longrightarrow> run_events host d n (replicate k Timeout) s = Some s"
  by (induction k) simp_all

text \<open>
  Claim C3, as the specification states it: every sequence of one or more synchronous
  \<^verbatim>\<open>notify\<close> calls is followed by exactly one flush. It fails when the calls are
  made with the flag set and no timer pending, which is the case for good once a
  listener has raised in a flush. Below, component 0 is mounted and raises in the
  first flush; then component 1 is mounted and \<^verbatim>\<open>notify\<close> is called twice, and
  the scheduler is given its turn: no flush runs, listener 1 is never invoked.
\<close>

theorem notify_without_flush_counterexample:
  "map_option observe
     (run_events throwing_host 2 5
        [Task [CUseTree 0, CNotify], Timeout,
         Task [CUseTree 1, CNotify, CNotify], Timeout] cart_store) =
   Some ([0], [0], True, 0)"
  by code_simp

text \<open>
  Claim C3, amended: take a task that calls \<^verbatim>\<open>notify\<close> once or more (directly, or
  through \<^verbatim>\<open>set\<close> or \<^verbatim>\<open>reset\<close>), in between whatever mutations. If it starts
  with the flag in step with the timers (set exactly when one timer is pending, as it
  is from construction on until a listener raises in a flush), it leaves exactly one
  timer pending, and however many turns the scheduler then takes, exactly one flush
  executes: the first turn runs the flush on the store as the task left it, that is,
  on the state after the last mutation, and no timer is pending after it. If it starts
  with the flag set (a flush is under way, or a listener has raised in an earlier
  flush), the calls schedule nothing: the timers are as before.
\<close>

theorem notify_coalesces:
  assumes "1 \<le> length (filter requests cs)"
    and "exec_cmds d cs s = Some (Normal s')"
  shows "(timers s = (if queued s then 1 else 0) \<longrightarrow>
            queued s' \<and> timers s' = 1 \<and>
            run_events host d n (replicate (Suc k) Timeout) s' =
              (case flush host d n (s'\<lparr>timers := 0\<rparr>) of
                 None \<Rightarrow> None
               | Some out \<Rightarrow> Some (store_of out)) \<and>
            (\<forall>out. flush host d n (s'\<lparr>timers := 0\<rparr>) = Some out \<longrightarrow>
               timers (store_of out) = 0)) \<and>
         (queued s \<longrightarrow> queued s' \<and> timers s' = timers s)"
proof (intro conjI impI allI)
  assume k: "timers s = (if queued s then 1 else 0)"
  from assms(1) have "filter requests cs \<noteq> []" by auto
  then have ex: "\<exists>c \<in> set cs. requests c"
    by (simp add: filter_empty_conv)
  from exec_cmds_requests[OF ex assms(2)] show q: "queued s'" .
  from exec_cmds_consistent[OF k assms(2)] q show t: "timers s' = 1" by simp
  have q0: "queued (s'\<lparr>timers := 0\<rparr>)" using q by simp
  have one: "timers (store_of out) = 0" if "flush host d n (s'\<lparr>timers := 0\<rparr>) = Some out" for out
  proof (cases out)
    case (Normal s2)
    with that have "flush host d n (s'\<lparr>timers := 0\<rparr>) = Some (Normal s2)" by simp
    then obtain s1 where fe: "forEach host d n 0 (s'\<lparr>timers := 0\<rparr>) = Some (Normal s1)"
      and s2: "s2 = s1\<lparr>queued := False\<rparr>"
      unfolding flush_Normal by blast
    from forEach_queued[OF q0 fe] s2 Normal show ?thesis by simp
  next
    case (Thrown s2)
    with that have "flush host d n (s'\<lparr>timers := 0\<rparr>) = Some (Thrown s2)" by simp
    then have fe: "forEach host d n 0 (s'\<lparr>timers := 0\<rparr>) = Some (Thrown s2)"
      unfolding flush_Thrown .
    from forEach_queued[OF q0 fe] Thrown show ?thesis by simp
  qed
  show "run_events host d n (replicate (Suc k) Timeout) s' =
          (case flush host d n (s'\<lparr>timers := 0\<rparr>) of
             None \<Rightarrow> None
           | Some out \<Rightarrow> Some (store_of out))"
  proof (cases "flush host d n (s'\<lparr>timers := 0\<rparr>)")
    case None
    with t show ?thesis by simp
  next
    case (Some out)
    from timeouts_idle[OF one[OF Some], of host d n k] Some t show ?thesis by simp
  qed
  fix out assume "flush host d n (s'\<lparr>timers := 0\<rparr>) = Some out"
  then show "timers (store_of out) = 0" by (rule one)
next
  assume "queued s"
  from exec_cmds_queued[OF this assms(2)] show "queued s'" and "timers s' = timers s"
    by simp_all
qed

text \<open>
  Two mutations of the total, each followed by \<^verbatim>\<open>notify\<close>, with component 7
  watching \<^verbatim>\<open>summary.total\<close>: one timer; in two turns of the scheduler the
  listener is invoked once, component 7 is told to update once, and the value the
  listener has seen is the last one, 5. The same task on the stuck store schedules
  nothing.
\<close>

theorem notify_coalesces_witness:
  "1 \<le> length (filter requests
          [CWrite 2 ''total'' (Prim (JNum 3)), CNotify,
           CWrite 2 ''total'' (Prim (JNum 5)), CNotify]) \<and>
   timers watching = (if queued watching then 1 else 0) \<and>
   exec_cmds 2
     [CWrite 2 ''total'' (Prim (JNum 3)), CNotify,
      CWrite 2 ''total'' (Prim (JNum 5)), CNotify] watching =
     Some (Normal (watching_changed\<lparr>queued := True, timers := 1\<rparr>)) \<and>
   timers (watching_changed\<lparr>queued := True, timers := 1\<rparr>) = 1 \<and>
   flush batched_host 2 5 (watching_changed\<lparr>queued := True, timers := 0\<rparr>) =
     Some (Normal (watching_changed
       \<lparr>closures := [SubtreeListener 7 [''summary'', ''total''] (Prim (JNum 5))],
        calls := [0], renders := [7]\<rparr>)) \<and>
   run_events batched_host 2 5 [Timeout, Timeout]
       (watching_changed\<lparr>queued := True, timers := 1\<rparr>) =
     Some (watching_changed
       \<lparr>closures := [SubtreeListener 7 [''summary'', ''total''] (Prim (JNum 5))],
        calls := [0], renders := [7]\<rparr>) \<and>
   queued stuck \<and>
   exec_cmds 2
     [CWrite 2 ''total'' (Prim (JNum 3)), CNotify,
      CWrite 2 ''total'' (Prim (JNum 5)), CNotify] stuck =
     Some (Normal (stuck\<lparr>heap := heap watching_changed\<rparr>)) \<and>
   timers (stuck\<lparr>heap := heap watching_changed\<rparr>) = timers stuck"
proof -
  let ?cs = "[CWrite 2 ''total'' (Prim (JNum 3)), CNotify,
              CWrite 2 ''total'' (Prim (JNum 5)), CNotify]"
  let ?s = "watching_changed\<lparr>queued := True, timers := 1\<rparr>"
  let ?out = "watching_changed
       \<lparr>closures := [SubtreeListener 7 [''summary'', ''total''] (Prim (JNum 5))],
        calls := [0], renders := [7]\<rparr>"
  have a: "1 \<le> length (filter requests ?cs)" by code_simp
  have b: "timers watching = (if queued watching then 1 else 0)" by code_simp
  have c: "exec_cmds 2 ?cs watching = Some (Normal ?s)" by code_simp
  have fl: "flush batched_host 2 5 (watching_changed\<lparr>queued := True, timers := 0\<rparr>) =
      Some (Normal ?out)" by code_simp
  have q: "queued stuck" by code_simp
  have e: "exec_cmds 2 ?cs stuck = Some (Normal (stuck\<lparr>heap := heap watching_changed\<rparr>))"
    by code_simp
  from notify_coalesces[OF a c, of batched_host 5 1] b
  have 1: "timers ?s = 1"
    and r: "run_events batched_host 2 5 (replicate (Suc 1) Timeout) ?s =
      (case flush batched_host 2 5 (?s\<lparr>timers := 0\<rparr>) of
         None \<Rightarrow> None | Some out \<Rightarrow> Some (store_of out))"
    by blast+
  have "replicate (Suc 1) Timeout = [Timeout, Timeout]" by simp
  with r fl have 2: "run_events batched_host 2 5 [Timeout, Timeout] ?s = Some ?out" by simp
  from notify_coalesces[OF a e, of batched_host 5 1] q
  have 3: "timers (stuck\<lparr>heap := heap watching_changed\<rparr>) = timers stuck" by blast
  from a b c 1 fl 2 q e 3 show ?thesis by blast
qed

section \<open>Unsubscribing\<close>

lemma exec_cmd_gone:
  "gone f log s \<Longrightarrow> exec_cmd d c s = Some out \<Longrightarrow> gone f log (store_of out)"
  unfolding gone_def
  by (cases c) (auto simp: store_ops set_add_mem set_delete_mem split: option.splits prod.splits)

lemma exec_cmds_gone:
  assumes "gone f log s" and "exec_cmds d cs s = Some out"
  shows "gone f log (store_of out)"
  by (rule exec_cmds_rule[OF assms(2), where P = "gone f log"])
     (fact assms(1), rule exec_cmd_gone)

lemma call_listener_gone:
  assumes "gone f log s" and "call_listener host d g s = Some out"
  shows "gone f log (store_of out)"
  using assms(2)
proof (cases rule: call_listener_cases)
  case not_a_function
  with assms(1) show ?thesis by simp
next
  case unchanged
  with assms(1) show ?thesis by simp
next
  case (update c cl)
  from assms(1) update(2) have "gone f log (s\<lparr>closures := cl, renders := renders s @ [c]\<rparr>)"
    by (simp add: gone_def)
  from exec_cmds_gone[OF this update(1)] show ?thesis .
qed

lemma forEach_gone:
  assumes "gone f log s" and "forEach host d n i s = Some out"
  shows "gone f log (store_of out)"
proof (rule forEach_rule[OF assms(2), where P = "gone f log"])
  show "gone f log s" by fact
next
  fix g t o1
  assume t: "gone f log t" and mem: "Some g \<in> set (listeners t)"
    and call: "call_listener host d g (t\<lparr>calls := calls t @ [g]\<rparr>) = Some o1"
  from t mem have "g \<noteq> f" by (auto simp: gone_def)
  with t have "gone f log (t\<lparr>calls := calls t @ [g]\<rparr>)" by (simp add: gone_def)
  from call_listener_gone[OF this call] show "gone f log (store_of o1)" .
qed

lemma flush_gone:
  assumes "gone f log s" and "flush host d n s = Some out"
  shows "gone f log (store_of out)"
proof (cases out)
  case (Normal s2)
  with assms(2) obtain s1 where fe: "forEach host d n 0 s = Some (Normal s1)"
    and s2: "s2 = s1\<lparr>queued := False\<rparr>"
    using flush_Normal[of host d n s s2] by auto
  from forEach_gone[OF assms(1) fe] s2 Normal show ?thesis by (simp add: gone_def)
next
  case (Thrown s2)
  with assms(2) have fe: "forEach host d n 0 s = Some (Thrown s2)"
    using flush_Thrown[of host d n s s2] by simp
  from forEach_gone[OF assms(1) fe] Thrown show ?thesis by simp
qed

lemma run_event_gone:
  assumes "gone f log s" and "run_event host d n e s = Some out"
  shows "gone f log (store_of out)"
proof (cases e)
  case (Task cs)
  with assms(2) have "exec_cmds d cs s = Some out" by simp
  from exec_cmds_gone[OF assms(1) this] show ?thesis .
next
  case Timeout
  show ?thesis
  proof (cases "timers s = 0")
    case True
    with Timeout assms show ?thesis by auto
  next
    case False
    from assms(1) have g: "gone f log (s\<lparr>timers := timers s - 1\<rparr>)" by (simp add: gone_def)
    from False Timeout assms(2) have "flush host d n (s\<lparr>timers := timers s - 1\<rparr>) = Some out"
      by simp
    from flush_gone[OF g this] show ?thesis .
  qed
qed

lemma run_events_gone:
  "gone f log s \<Longrightarrow> run_events host d n es s = Some s' \<Longrightarrow> gone f log s'"
proof (induction es arbitrary: s)
  case Nil
  then show ?case by simp
next
  case (Cons e es)
  from Cons.prems(2) obtain o1 where o1: "run_event host d n e s = Some o1"
    and rest: "run_events host d n es (store_of o1) = Some s'"
    by (cases "run_event host d n e s") simp_all
  from run_event_gone[OF Cons.prems(1) o1] have "gone f log (store_of o1)" .
  from Cons.IH[OF this rest] show ?case .
qed

text \<open>
  Claim C8: once the unsubscribe function of a listener that a hook registered has
  been called, the listener is never invoked again: not in any later run of tasks and
  timers, whatever timers are pending at the time of the call, and not in the rest of
  a flush that is under way. Calling the unsubscribe function again, at once or at any
  later time, changes nothing.
  The listener is a closure made by a hook (\<open>f < length (closures s)\<close>); its
  invocations are its occurrences in the log of calls.
\<close>

theorem unsubscribed_listener_never_fires:
  assumes "f < length (closures s)"
  shows "(run_events host d n es (unsubscribe f s) = Some s' \<longrightarrow>
            filter ((=) f) (calls s') = filter ((=) f) (calls s) \<and> unsubscribe f s' = s') \<and>
         (forEach host d n i (unsubscribe f s) = Some out \<longrightarrow>
            filter ((=) f) (calls (store_of out)) = filter ((=) f) (calls s)) \<and>
         unsubscribe f (unsubscribe f s) = unsubscribe f s"
proof (intro conjI impI)
  have g: "gone f (filter ((=) f) (calls s)) (unsubscribe f s)"
    using assms by (simp add: gone_def unsubscribe_def set_delete_mem)
  show "unsubscribe f (unsubscribe f s) = unsubscribe f s"
    by (simp add: unsubscribe_def set_delete_idem)
  { assume "run_events host d n es (unsubscribe f s) = Some s'"
    from run_events_gone[OF g this]
    show "filter ((=) f) (calls s') = filter ((=) f) (calls s)" and "unsubscribe f s' = s'"
      by (simp_all add: gone_def unsubscribe_def set_delete_absent) }
  assume "forEach host d n i (unsubscribe f s) = Some out"
  from forEach_gone[OF g this]
  show "filter ((=) f) (calls (store_of out)) = filter ((=) f) (calls s)" by (simp add: gone_def)
qed

text \<open>
  Listener 0 is unsubscribed while a timer is pending; the flush invokes listener 1
  only.
\<close>

theorem unsubscribed_listener_never_fires_witness:
  "0 < length (closures (two_listeners\<lparr>timers := 1\<rparr>)) \<and>
   run_events batched_host 2 5 [Timeout] (unsubscribe 0 (two_listeners\<lparr>timers := 1\<rparr>)) =
     Some (two_listeners\<lparr>listeners := [None, Some 1], calls := [1], renders := [1],
                           queued := False\<rparr>) \<and>
   filter ((=) 0) (calls (two_listeners\<lparr>listeners := [None, Some 1], calls := [1],
                             renders := [1], queued := False\<rparr>)) =
     filter ((=) 0) (calls (two_listeners\<lparr>timers := 1\<rparr>))"
proof -
  let ?s' = "two_listeners\<lparr>listeners := [None, Some 1], calls := [1], renders := [1],
                            queued := False\<rparr>"
  have a: "0 < length (closures (two_listeners\<lparr>timers := 1\<rparr>))" by code_simp
  have b: "run_events batched_host 2 5 [Timeout] (unsubscribe 0 (two_listeners\<lparr>timers := 1\<rparr>)) =
     Some ?s'" by code_simp
  from unsubscribed_listener_never_fires[OF a, of batched_host 2 5 "[Timeout]" ?s'] a b
  show ?thesis by blast
qed

section \<open>Path-scoped subscribers\<close>

lemma exec_cmd_closures:
  "f < length (closures s) \<and> closures s ! f = cl \<Longrightarrow> exec_cmd d c s = Some out \<Longrightarrow>
     f < length (closures (store_of out)) \<and> closures (store_of out) ! f = cl"
  by (cases c) (auto simp: store_ops nth_append split: option.splits prod.splits)

lemma exec_cmds_closures:
  assumes "f < length (closures s) \<and> closures s ! f = cl" and "exec_cmds d cs s = Some out"
  shows "f < length (closures (store_of out)) \<and> closures (store_of out) ! f = cl"
  by (rule exec_cmds_rule[OF assms(2), where P = "\<lambda>t. f < length (closures t) \<and> closures t ! f = cl"])
     (fact assms(1), rule exec_cmd_closures)

lemma call_listener_other:
  assumes "f < length (closures s)" and "g \<noteq> f" and "call_listener host d g s = Some out"
  shows "closures (store_of out) ! f = closures s ! f"
  using assms(3)
proof (cases rule: call_listener_cases)
  case not_a_function
  then show ?thesis by simp
next
  case unchanged
  then show ?thesis by simp
next
  case (update c cl)
  let ?s = "s\<lparr>closures := cl, renders := renders s @ [c]\<rparr>"
  from assms(1,2) update(2,3)
  have "f < length (closures ?s) \<and> closures ?s ! f = closures s ! f" by simp
  from exec_cmds_closures[OF this update(1)] show ?thesis by simp
qed

lemma mixed_reached:
  "run_event batched_host 2 5
     (Task [CUseTree 0, CUseSubtree 7 [''summary'', ''total''],
            CWrite 2 ''total'' (Prim (JNum 5)), CNotify]) cart_store =
     Some (Normal (mixed\<lparr>timers := 1\<rparr>))"
  by code_simp

text \<open>
  Claim C6, as the specification states it: on every flush, the listener of
  \<^verbatim>\<open>useSubtree(path)\<close> calls \<^verbatim>\<open>forceUpdate\<close> if and only if the value at its
  path has changed. A flush stops at the first listener that raises, so a listener
  after it is not invoked, changed value or not. Below, component 0 is mounted on
  \<^verbatim>\<open>useTree\<close> and component 7 on \<^verbatim>\<open>useSubtree('summary.total')\<close>, the total
  goes from 0 to 5 and the flush runs; component 0 raises, and component 7 is not told
  to update although the value at its path is 5 and its \<^verbatim>\<open>oldEncoding\<close> is 0.
\<close>

theorem subtree_listener_counterexample:
  "map_option observe
     (run_events throwing_host 2 5
        [Task [CUseTree 0, CUseSubtree 7 [''summary'', ''total''],
               CWrite 2 ''total'' (Prim (JNum 5)), CNotify], Timeout] cart_store) =
     Some ([0], [0], True, 0) \<and>
   map_option (useSubtree_value [''summary'', ''total''])
     (run_events throwing_host 2 5
        [Task [CUseTree 0, CUseSubtree 7 [''summary'', ''total''],
               CWrite 2 ''total'' (Prim (JNum 5)), CNotify], Timeout] cart_store) =
     Some (Prim (JNum 5)) \<and>
   map_option closures
     (run_events throwing_host 2 5
        [Task [CUseTree 0, CUseSubtree 7 [''summary'', ''total''],
               CWrite 2 ''total'' (Prim (JNum 5)), CNotify], Timeout] cart_store) =
     Some [TreeListener 0, SubtreeListener 7 [''summary'', ''total''] (Prim (JNum 0))]"
  by code_simp

text \<open>
  Claim C6, amended: the listener of \<^verbatim>\<open>useSubtree(path)\<close> starts with the value
  found at the path when the effect subscribes it. Every flush that gets to the
  listener's entry (a flush does not get to the entries after a listener that raises)
  invokes it there and goes on from the store the invocation leaves. The invocation
  calls \<^verbatim>\<open>forceUpdate\<close> if and only if the value now found at the path is not
  \<^verbatim>\<open>===\<close> to its \<^verbatim>\<open>oldEncoding\<close>, and in either case \<^verbatim>\<open>oldEncoding\<close> is the
  value just found when it returns. Nothing else changes \<^verbatim>\<open>oldEncoding\<close> (no
  command of external code, no other listener), so at each invocation it is the value
  observed at the previous one, or at subscription. The calls of \<^verbatim>\<open>forceUpdate\<close>
  are the entries of \<open>renders\<close>; \<^verbatim>\<open>===\<close> is equality of \<open>val\<close>.
\<close>

theorem subtree_listener_fires_iff_changed:
  "closures (useSubtree_effect c path s0) ! length (closures s0) =
     SubtreeListener c path (lodash_get (heap s0) (state s0) path) \<and>
   Some (length (closures s0)) \<in> set (listeners (useSubtree_effect c path s0)) \<and>
   (f < length (closures t) \<longrightarrow> closures t ! f = SubtreeListener c path oldEncoding \<longrightarrow>
      (reaches host d s i t \<longrightarrow> i < length (listeners t) \<longrightarrow> listeners t ! i = Some f \<longrightarrow>
         forEach host d (i + Suc n) 0 s =
           (case call_listener host d f (t\<lparr>calls := calls t @ [f]\<rparr>) of
              None \<Rightarrow> None
            | Some (Thrown t') \<Rightarrow> Some (Thrown t')
            | Some (Normal t') \<Rightarrow> forEach host d n (Suc i) t') \<and>
         flush host d (i + Suc n) s =
           (case call_listener host d f (t\<lparr>calls := calls t @ [f]\<rparr>) of
              None \<Rightarrow> None
            | Some (Thrown t') \<Rightarrow> Some (Thrown t')
            | Some (Normal t') \<Rightarrow>
                (case forEach host d n (Suc i) t' of
                   None \<Rightarrow> None
                 | Some (Thrown u) \<Rightarrow> Some (Thrown u)
                 | Some (Normal u) \<Rightarrow> Some (Normal (u\<lparr>queued := False\<rparr>))))) \<and>
      (call_listener host d f (t\<lparr>calls := calls t @ [f]\<rparr>) = Some out \<longrightarrow>
         renders (store_of out) =
           (if lodash_get (heap t) (state t) path \<noteq> oldEncoding then renders t @ [c]
            else renders t) \<and>
         calls (store_of out) = calls t @ [f] \<and>
         closures (store_of out) ! f =
           SubtreeListener c path (lodash_get (heap t) (state t) path)) \<and>
      (exec_cmds d cs t = Some out \<longrightarrow>
         closures (store_of out) ! f = SubtreeListener c path oldEncoding) \<and>
      (g \<noteq> f \<longrightarrow> call_listener host d g t = Some out \<longrightarrow>
         closures (store_of out) ! f = SubtreeListener c path oldEncoding))"
proof (intro conjI impI)
  show "closures (useSubtree_effect c path s0) ! length (closures s0) =
     SubtreeListener c path (lodash_get (heap s0) (state s0) path)"
    by (simp add: useSubtree_effect_def subscribe_def)
  show "Some (length (closures s0)) \<in> set (listeners (useSubtree_effect c path s0))"
    by (simp add: useSubtree_effect_def subscribe_def set_add_mem)
next
  assume f: "f < length (closures t)"
    and cl: "closures t ! f = SubtreeListener c path oldEncoding"
  { assume r: "reaches host d s i t" and i: "i < length (listeners t)"
      and e: "listeners t ! i = Some f"
    from reaches_forEach[OF r, of "Suc n"] forEach_Suc_call[OF i e, of host d n]
    show fe: "forEach host d (i + Suc n) 0 s =
           (case call_listener host d f (t\<lparr>calls := calls t @ [f]\<rparr>) of
              None \<Rightarrow> None
            | Some (Thrown t') \<Rightarrow> Some (Thrown t')
            | Some (Normal t') \<Rightarrow> forEach host d n (Suc i) t')" by simp
    show "flush host d (i + Suc n) s =
           (case call_listener host d f (t\<lparr>calls := calls t @ [f]\<rparr>) of
              None \<Rightarrow> None
            | Some (Thrown t') \<Rightarrow> Some (Thrown t')
            | Some (Normal t') \<Rightarrow>
                (case forEach host d n (Suc i) t' of
                   None \<Rightarrow> None
                 | Some (Thrown u) \<Rightarrow> Some (Thrown u)
                 | Some (Normal u) \<Rightarrow> Some (Normal (u\<lparr>queued := False\<rparr>))))"
      unfolding flush_def fe by (simp split: option.splits outcome.splits) }
  { assume "exec_cmds d cs t = Some out"
    from exec_cmds_closures[OF _ this, of f "SubtreeListener c path oldEncoding"] f cl
    show "closures (store_of out) ! f = SubtreeListener c path oldEncoding" by simp }
  { assume "g \<noteq> f" and "call_listener host d g t = Some out"
    from call_listener_other[OF f this] cl
    show "closures (store_of out) ! f = SubtreeListener c path oldEncoding" by simp }
  assume call: "call_listener host d f (t\<lparr>calls := calls t @ [f]\<rparr>) = Some out"
  let ?t = "t\<lparr>calls := calls t @ [f]\<rparr>"
  let ?new = "lodash_get (heap t) (state t) path"
  let ?u = "?t\<lparr>closures := (closures t)[f := SubtreeListener c path ?new],
              renders := renders t @ [c]\<rparr>"
  from call_listener_calls[OF call] show "calls (store_of out) = calls t @ [f]" by simp
  have same: "out = Normal ?t" if "?new = oldEncoding"
    using that f cl call by (simp add: call_listener_def)
  have diff: "exec_cmds d (host c) ?u = Some out" if "?new \<noteq> oldEncoding"
    using that f cl call by (simp add: call_listener_def forceUpdate_def)
  show "renders (store_of out) = (if ?new \<noteq> oldEncoding then renders t @ [c] else renders t)"
  proof (cases "?new = oldEncoding")
    case True
    with same show ?thesis by simp
  next
    case False
    from exec_cmds_logs[OF diff[OF False]] False show ?thesis by simp
  qed
  show "closures (store_of out) ! f = SubtreeListener c path ?new"
  proof (cases "?new = oldEncoding")
    case True
    with same cl show ?thesis by simp
  next
    case False
    have "f < length (closures ?u) \<and> closures ?u ! f = SubtreeListener c path ?new"
      using f by simp
    from exec_cmds_closures[OF this diff[OF False]] show ?thesis by simp
  qed
qed

text \<open>
  The flush of the cart with the \<^verbatim>\<open>useTree\<close> listener 0 and the listener 1 on
  \<^verbatim>\<open>summary.total\<close>, after the total went from 0 to 5: the flush gets to entry 1
  past listener 0, invokes listener 1 there, component 7 is told to update, and the
  listener now holds 5.
\<close>

theorem subtree_listener_fires_iff_changed_witness:
  "1 < length (closures mixed) \<and>
   closures mixed ! 1 = SubtreeListener 7 [''summary'', ''total''] (Prim (JNum 0)) \<and>
   reaches batched_host 2 mixed 1 (mixed\<lparr>calls := [0], renders := [0]\<rparr>) \<and>
   1 < length (listeners mixed) \<and> listeners mixed ! 1 = Some 1 \<and>
   lodash_get (heap mixed) (state mixed) [''summary'', ''total''] = Prim (JNum 5) \<and>
   call_listener batched_host 2 1 (mixed\<lparr>calls := [0, 1], renders := [0]\<rparr>) =
     Some (Normal (mixed
       \<lparr>closures := [TreeListener 0, SubtreeListener 7 [''summary'', ''total''] (Prim (JNum 5))],
        calls := [0, 1], renders := [0, 7]\<rparr>)) \<and>
   forEach batched_host 2 5 0 mixed =
     forEach batched_host 2 3 2 (mixed
       \<lparr>closures := [TreeListener 0, SubtreeListener 7 [''summary'', ''total''] (Prim (JNum 5))],
        calls := [0, 1], renders := [0, 7]\<rparr>) \<and>
   renders (mixed
       \<lparr>closures := [TreeListener 0, SubtreeListener 7 [''summary'', ''total''] (Prim (JNum 5))],
        calls := [0, 1], renders := [0, 7]\<rparr>) = [0] @ [7] \<and>
   flush batched_host 2 5 mixed =
     Some (Normal (mixed
       \<lparr>closures := [TreeListener 0, SubtreeListener 7 [''summary'', ''total''] (Prim (JNum 5))],
        calls := [0, 1], renders := [0, 7], queued := False\<rparr>))"
proof -
  let ?t = "mixed\<lparr>calls := [0], renders := [0]\<rparr>"
  let ?out = "mixed
       \<lparr>closures := [TreeListener 0, SubtreeListener 7 [''summary'', ''total''] (Prim (JNum 5))],
        calls := [0, 1], renders := [0, 7]\<rparr>"
  have a: "1 < length (closures ?t)" by code_simp
  have b: "closures ?t ! 1 = SubtreeListener 7 [''summary'', ''total''] (Prim (JNum 0))"
    by code_simp
  have r0: "0 < length (listeners mixed)" "listeners mixed ! 0 = Some 0"
    "call_listener batched_host 2 0 (mixed\<lparr>calls := calls mixed @ [0]\<rparr>) = Some (Normal ?t)"
    by code_simp+
  have r: "reaches batched_host 2 mixed 1 ?t"
    using reaches.call[OF reaches.start r0] by simp
  have i: "1 < length (listeners ?t)" and e: "listeners ?t ! 1 = Some 1" by code_simp+
  have v: "lodash_get (heap ?t) (state ?t) [''summary'', ''total''] = Prim (JNum 5)"
    by code_simp
  have c: "call_listener batched_host 2 1 (?t\<lparr>calls := calls ?t @ [1]\<rparr>) = Some (Normal ?out)"
    by code_simp
  note inst = subtree_listener_fires_iff_changed[where c = 7 and path = "[''summary'', ''total'']"
      and f = 1 and t = ?t and oldEncoding = "Prim (JNum 0)" and host = batched_host and d = 2
      and s = mixed and i = 1 and n = 3 and out = "Normal ?out"]
  from inst a b r i e c
  have 1: "forEach batched_host 2 (1 + Suc 3) 0 mixed = forEach batched_host 2 3 (Suc 1) ?out"
    by simp
  from inst a b c v have 2: "renders (store_of (Normal ?out)) = renders ?t @ [7]" by simp
  have 3: "1 < length (closures mixed)"
    "closures mixed ! 1 = SubtreeListener 7 [''summary'', ''total''] (Prim (JNum 0))"
    "1 < length (listeners mixed)" "listeners mixed ! 1 = Some 1"
    "lodash_get (heap mixed) (state mixed) [''summary'', ''total''] = Prim (JNum 5)"
    by code_simp+
  have 4: "call_listener batched_host 2 1 (mixed\<lparr>calls := [0, 1], renders := [0]\<rparr>) =
      Some (Normal ?out)" by code_simp
  from 1 have 5: "forEach batched_host 2 5 0 mixed = forEach batched_host 2 3 2 ?out"
    by (simp add: numeral_2_eq_2)
  from 2 have 6: "renders ?out = [0] @ [7]" by simp
  have 7: "flush batched_host 2 5 mixed = Some (Normal (?out\<lparr>queued := False\<rparr>))"
    by code_simp
  from 3 r 4 5 6 7 show ?thesis by blast
qed

section \<open>Deep copies\<close>

lemma reify_Prim [simp]: "reify m h (Prim p) = TPrim p"
  by (cases m) simp_all

lemma nodes_Prim [simp]: "nodes m h (Prim p) = []"
  by (cases m) simp_all

text \<open>A finite structure is not affected by what is allocated after it.\<close>

lemma fits_append: "fits n h v \<Longrightarrow> fits n (h @ e) v"
proof (induction n arbitrary: v)
  case 0
  then show ?case by simp
next
  case (Suc n)
  show ?case
  proof (cases v)
    case (Prim p)
    then show ?thesis by simp
  next
    case (Ref a)
    with Suc.prems have a: "a < length h" and all: "list_all (\<lambda>kv. fits n h (snd kv)) (h ! a)"
      by simp_all
    from all Suc.IH have "list_all (\<lambda>kv. fits n (h @ e) (snd kv)) (h ! a)"
      by (simp add: list_all_iff)
    with a Ref show ?thesis by (simp add: nth_append)
  qed
qed

lemma reify_append: "fits n h v \<Longrightarrow> reify m (h @ e) v = reify m h v"
proof (induction n arbitrary: v m)
  case 0
  then show ?case by (cases v; cases m) simp_all
next
  case (Suc n)
  show ?case
  proof (cases v)
    case (Prim p)
    then show ?thesis by simp
  next
    case (Ref a)
    with Suc.prems have a: "a < length h" and all: "list_all (\<lambda>kv. fits n h (snd kv)) (h ! a)"
      by simp_all
    show ?thesis
    proof (cases m)
      case 0
      with Ref show ?thesis by simp
    next
      case (Suc k)
      from all Suc.IH have eq: "map (\<lambda>kv. (fst kv, reify k (h @ e) (snd kv))) (h ! a) =
          map (\<lambda>kv. (fst kv, reify k h (snd kv))) (h ! a)"
        by (simp add: list_all_iff)
      from a Ref Suc show ?thesis by (simp add: nth_append eq)
    qed
  qed
qed

lemma nodes_append: "fits n h v \<Longrightarrow> nodes m (h @ e) v = nodes m h v"
proof (induction n arbitrary: v m)
  case 0
  then show ?case by (cases v; cases m) simp_all
next
  case (Suc n)
  show ?case
  proof (cases v)
    case (Prim p)
    then show ?thesis by simp
  next
    case (Ref a)
    with Suc.prems have a: "a < length h" and all: "list_all (\<lambda>kv. fits n h (snd kv)) (h ! a)"
      by simp_all
    show ?thesis
    proof (cases m)
      case 0
      with Ref show ?thesis by simp
    next
      case (Suc k)
      from all Suc.IH have eq: "map (\<lambda>kv. nodes k (h @ e) (snd kv)) (h ! a) =
          map (\<lambda>kv. nodes k h (snd kv)) (h ! a)"
        by (simp add: list_all_iff)
      from a Ref Suc show ?thesis by (simp add: nth_append eq)
    qed
  qed
qed

lemma fits_append_props:
  "list_all (\<lambda>kv. fits n h (snd kv)) ps \<Longrightarrow> list_all (\<lambda>kv. fits n (h @ e) (snd kv)) ps"
  by (induction ps) (simp_all add: fits_append)

lemma reify_append_props:
  "list_all (\<lambda>kv. fits n h (snd kv)) ps \<Longrightarrow>
     map (\<lambda>kv. (fst kv, reify m (h @ e) (snd kv))) ps = map (\<lambda>kv. (fst kv, reify m h (snd kv))) ps"
  by (induction ps) (simp_all add: reify_append[of n])

lemma nodes_append_props:
  "list_all (\<lambda>kv. fits n h (snd kv)) ps \<Longrightarrow>
     map (\<lambda>kv. nodes m (h @ e) (snd kv)) ps = map (\<lambda>kv. nodes m h (snd kv)) ps"
  by (induction ps) (simp_all add: nodes_append[of n])

text \<open>
  Copying the properties of an object, given that the function copying each value
  returns a deep copy of every finite structure.
\<close>

lemma clone_props_copied:
  assumes step: "\<And>h v. fits n h v \<Longrightarrow> \<exists>v' h'. f h v = Some (v', h') \<and> copied n h v v' h'"
  shows "list_all (\<lambda>kv. fits n h (snd kv)) ps \<Longrightarrow>
         \<exists>ps' h'. clone_props f h ps = Some (ps', h') \<and> copied_props n h ps ps' h'"
proof (induction ps arbitrary: h)
  case Nil
  show ?case by (simp add: copied_props_def)
next
  case (Cons kv ps)
  from Cons.prems have fv: "fits n h (snd kv)"
    and fps: "list_all (\<lambda>kv. fits n h (snd kv)) ps" by simp_all
  from step[OF fv] obtain v1 h1 where f1: "f h (snd kv) = Some (v1, h1)"
    and c1: "copied n h (snd kv) v1 h1" by blast
  from c1 obtain e1 where h1: "h1 = h @ e1" and fit1: "fits n h1 v1"
    and r1: "\<And>m. reify m h1 v1 = reify m h (snd kv)"
    and n1: "\<And>m a. a \<in> set (nodes m h1 v1) \<Longrightarrow> length h \<le> a"
    unfolding copied_def by blast
  from fps h1 have fps1: "list_all (\<lambda>kv. fits n h1 (snd kv)) ps"
    by (simp add: fits_append_props)
  from Cons.IH[OF fps1] obtain ps2 h2 where f2: "clone_props f h1 ps = Some (ps2, h2)"
    and c2: "copied_props n h1 ps ps2 h2" by blast
  from c2 obtain e2 where h2: "h2 = h1 @ e2"
    and fit2: "list_all (\<lambda>kv. fits n h2 (snd kv)) ps2"
    and r2: "\<And>m. map (\<lambda>kv. (fst kv, reify m h2 (snd kv))) ps2 =
                 map (\<lambda>kv. (fst kv, reify m h1 (snd kv))) ps"
    and n2: "\<And>m kv a. kv \<in> set ps2 \<Longrightarrow> a \<in> set (nodes m h2 (snd kv)) \<Longrightarrow> length h1 \<le> a"
    unfolding copied_props_def by blast
  have run: "clone_props f h (kv # ps) = Some ((fst kv, v1) # ps2, h2)"
    using f1 f2 by simp
  have ext: "\<exists>e. h2 = h @ e" using h1 h2 by simp
  have fit: "list_all (\<lambda>kv. fits n h2 (snd kv)) ((fst kv, v1) # ps2)"
    using fits_append[OF fit1, of e2] fit2 h2 by simp
  have rps: "map (\<lambda>kv. (fst kv, reify m h1 (snd kv))) ps =
             map (\<lambda>kv. (fst kv, reify m h (snd kv))) ps" for m
    using fps h1 by (simp add: reify_append_props)
  have rf: "map (\<lambda>kv. (fst kv, reify m h2 (snd kv))) ((fst kv, v1) # ps2) =
            map (\<lambda>kv. (fst kv, reify m h (snd kv))) (kv # ps)" for m
    using r1[of m] r2[of m] rps[of m] h2 by (simp add: reify_append[OF fit1])
  have nd: "length h \<le> a" if "p \<in> set ((fst kv, v1) # ps2)" "a \<in> set (nodes m h2 (snd p))" for m p a
  proof (cases "p = (fst kv, v1)")
    case True
    with that(2) h2 have "a \<in> set (nodes m h1 v1)" by (simp add: nodes_append[OF fit1])
    then show ?thesis by (rule n1)
  next
    case False
    with that(1) have "p \<in> set ps2" by simp
    from n2[OF this that(2)] h1 show ?thesis by simp
  qed
  have "copied_props n h (kv # ps) ((fst kv, v1) # ps2) h2"
    unfolding copied_props_def using ext fit rf nd by blast
  with run show ?case by blast
qed

text \<open>
  \<^verbatim>\<open>_.cloneDeep\<close> returns on every finite structure within the fuel, and what it
  returns is a deep copy.
\<close>

lemma cloneDeep_copied:
  "fits n h v \<Longrightarrow> \<exists>v' h'. cloneDeep n h v = Some (v', h') \<and> copied n h v v' h'"
proof (induction n arbitrary: h v)
  case 0
  then obtain p where "v = Prim p" by (cases v) simp_all
  then show ?case by (simp add: copied_def)
next
  case (Suc n)
  show ?case
  proof (cases v)
    case (Prim p)
    then show ?thesis by (simp add: copied_def)
  next
    case (Ref a)
    with Suc.prems have a: "a < length h" and all: "list_all (\<lambda>kv. fits n h (snd kv)) (h ! a)"
      by simp_all
    from clone_props_copied[where f = "cloneDeep n" and n = n, OF Suc.IH all]
    obtain ps' h' where cp: "clone_props (cloneDeep n) h (h ! a) = Some (ps', h')"
      and c: "copied_props n h (h ! a) ps' h'" by blast
    from c obtain e where h': "h' = h @ e"
      and fit: "list_all (\<lambda>kv. fits n h' (snd kv)) ps'"
      and r: "\<And>m. map (\<lambda>kv. (fst kv, reify m h' (snd kv))) ps' =
                 map (\<lambda>kv. (fst kv, reify m h (snd kv))) (h ! a)"
      and nd: "\<And>m kv b. kv \<in> set ps' \<Longrightarrow> b \<in> set (nodes m h' (snd kv)) \<Longrightarrow> length h \<le> b"
      unfolding copied_props_def by blast
    let ?h = "h' @ [ps']"
    let ?v = "Ref (length h')"
    have run: "cloneDeep (Suc n) h v = Some (?v, ?h)"
      using Ref a cp by simp
    have ext: "\<exists>e. ?h = h @ e" using h' by simp
    have fit': "list_all (\<lambda>kv. fits n ?h (snd kv)) ps'"
      using fit by (rule fits_append_props)
    then have fits: "fits (Suc n) ?h ?v" by simp
    have rs: "map (\<lambda>kv. (fst kv, reify m ?h (snd kv))) ps' =
              map (\<lambda>kv. (fst kv, reify m h' (snd kv))) ps'" for m
      using fit by (rule reify_append_props)
    have reif: "reify m ?h ?v = reify m h v" for m
    proof (cases m)
      case 0
      with Ref show ?thesis by simp
    next
      case (Suc k)
      with Ref a rs[of k] r[of k] show ?thesis by simp
    qed
    have ns: "map (\<lambda>kv. nodes m ?h (snd kv)) ps' = map (\<lambda>kv. nodes m h' (snd kv)) ps'" for m
      using fit by (rule nodes_append_props)
    have len: "length h \<le> length h'" using h' by simp
    have fresh: "length h \<le> b" if "b \<in> set (nodes m ?h ?v)" for m b
    proof (cases m)
      case 0
      with that len show ?thesis by simp
    next
      case (Suc k)
      with that ns[of k] have "b = length h' \<or> (\<exists>kv \<in> set ps'. b \<in> set (nodes k h' (snd kv)))"
        by auto
      with len nd show ?thesis by blast
    qed
    have "copied (Suc n) h v ?v ?h"
      unfolding copied_def using ext fits reif fresh by blast
    with run show ?thesis by blast
  qed
qed

text \<open>Replacing an object that a value does not reach leaves the value's content.\<close>

lemma nodes_child:
  assumes "a < length h" "kv \<in> set (h ! a)" "b \<in> set (nodes m h (snd kv))"
  shows "b \<in> set (nodes (Suc m) h (Ref a))"
  using assms by auto

lemma reify_update:
  "\<forall>b \<in> set (nodes m h v). b \<noteq> a \<Longrightarrow> reify m (h[a := ob]) v = reify m h v"
proof (induction m arbitrary: v)
  case 0
  then show ?case by (cases v) simp_all
next
  case (Suc m)
  show ?case
  proof (cases v)
    case (Prim p)
    then show ?thesis by simp
  next
    case (Ref b)
    show ?thesis
    proof (cases "b < length h")
      case False
      with Ref show ?thesis by simp
    next
      case True
      from Suc.prems Ref True have ba: "b \<noteq> a" by simp
      have "reify m (h[a := ob]) (snd kv) = reify m h (snd kv)" if "kv \<in> set (h ! b)" for kv
      proof (rule Suc.IH, rule ballI)
        fix c assume "c \<in> set (nodes m h (snd kv))"
        from nodes_child[OF True that this] Suc.prems Ref show "c \<noteq> a" by blast
      qed
      then have eq: "map (\<lambda>kv. (fst kv, reify m (h[a := ob]) (snd kv))) (h ! b) =
          map (\<lambda>kv. (fst kv, reify m h (snd kv))) (h ! b)"
        by simp
      from Ref True ba show ?thesis by (simp add: eq)
    qed
  qed
qed

text \<open>What the constructor and \<^verbatim>\<open>reset\<close> do on a finite initial value.\<close>

lemma Store_copies:
  assumes "fits d h init"
  shows "\<exists>s. Store d h init = Some s \<and> initial s = init \<and> copied d h init (state s) (heap s)"
proof -
  from cloneDeep_copied[OF assms] obtain v' h'
    where "cloneDeep d h init = Some (v', h')" and "copied d h init v' h'" by blast
  then show ?thesis by (simp add: Store_def)
qed

lemma reset_fresh:
  assumes "fits d (heap s) (initial s)"
  shows "\<exists>s'. reset d s = Some s' \<and>
           (\<forall>m. content m s' = reify m (heap s) (initial s)) \<and>
           (\<forall>m. \<forall>a \<in> set (state_nodes m s'). length (heap s) \<le> a) \<and>
           take (length (heap s)) (heap s') = heap s \<and>
           initial s' = initial s"
proof -
  from cloneDeep_copied[OF assms] obtain v' h'
    where cl: "cloneDeep d (heap s) (initial s) = Some (v', h')"
      and cp: "copied d (heap s) (initial s) v' h'" by blast
  let ?s = "notify (s\<lparr>heap := h', state := v'\<rparr>)"
  from cl have r: "reset d s = Some ?s" by (simp add: reset_def)
  from cp obtain e where e: "h' = heap s @ e" unfolding copied_def by blast
  from cp have "\<forall>m. content m ?s = reify m (heap s) (initial s)"
    and "\<forall>m. \<forall>a \<in> set (state_nodes m ?s). length (heap s) \<le> a"
    by (simp_all add: copied_def content_def state_nodes_def getTree_def)
  moreover from e have "take (length (heap s)) (heap ?s) = heap s" by simp
  moreover have "initial ?s = initial s" by simp
  ultimately show ?thesis using r by blast
qed

section \<open>Construction and reset\<close>

text \<open>
  Claim C5, as the specification states it: construction deep-copies the initial value
  into the state and into a retained snapshot, so that a later mutation of the caller's
  object affects neither \<^verbatim>\<open>getTree()\<close> nor what \<^verbatim>\<open>reset()\<close> restores. The
  store keeps no snapshot: \<^verbatim>\<open>reset\<close> clones the caller's \<^verbatim>\<open>initial\<close> again. The
  cart is constructed with \<^verbatim>\<open>open: false\<close>; a reset then restores that, but after
  the caller has set \<^verbatim>\<open>initial.open = true\<close> a reset restores \<^verbatim>\<open>open: true\<close>.
\<close>

theorem initial_mutation_counterexample:
  "Store 2 cart_heap (Ref 1) = Some cart_store \<and>
   map_option (content 2) (reset 2 cart_store) =
     Some (TObj [(''open'', TPrim (JBool False)),
                 (''summary'', TObj [(''total'', TPrim (JNum 0))])]) \<and>
   map_option (content 2) (reset 2 (write_prop 1 ''open'' (Prim (JBool True)) cart_store)) =
     Some (TObj [(''open'', TPrim (JBool True)),
                 (''summary'', TObj [(''total'', TPrim (JNum 0))])])"
  by code_simp

text \<open>
  Claim C5, amended: construction deep-copies the initial value into the state and
  keeps the caller's object itself, by reference. A later write to any object that
  existed at construction (the caller's initial object and all it reaches are among
  them) does not change the content of \<^verbatim>\<open>getTree()\<close>; a later \<^verbatim>\<open>reset()\<close>
  restores a copy of the caller's object as it is when \<^verbatim>\<open>reset\<close> runs, the write
  included.
\<close>

theorem initial_is_kept_by_reference:
  assumes "fits d h init" and "a < length h"
  shows "\<exists>s. Store d h init = Some s \<and>
           (\<forall>m. content m s = reify m h init) \<and>
           (\<forall>m. content m (write_prop a k v s) = content m s) \<and>
           (fits d (heap (write_prop a k v s)) init \<longrightarrow>
              (\<exists>s'. reset d (write_prop a k v s) = Some s' \<and>
                 (\<forall>m. content m s' = reify m (heap (write_prop a k v s)) init)))"
proof -
  from Store_copies[OF assms(1)] obtain s where st: "Store d h init = Some s"
    and ini: "initial s = init" and cp: "copied d h init (state s) (heap s)" by blast
  from cp have c1: "\<forall>m. content m s = reify m h init"
    and fresh: "\<And>m b. b \<in> set (nodes m (heap s) (state s)) \<Longrightarrow> length h \<le> b"
    by (simp_all add: copied_def content_def getTree_def)
  have c2: "content m (write_prop a k v s) = content m s" for m
  proof -
    have "\<forall>b \<in> set (nodes m (heap s) (state s)). b \<noteq> a"
      using fresh assms(2) by fastforce
    from reify_update[OF this] show ?thesis
      by (simp add: content_def getTree_def write_prop_def)
  qed
  have c3: "\<exists>s'. reset d (write_prop a k v s) = Some s' \<and>
                 (\<forall>m. content m s' = reify m (heap (write_prop a k v s)) init)"
    if "fits d (heap (write_prop a k v s)) init"
  proof -
    from that ini have "fits d (heap (write_prop a k v s)) (initial (write_prop a k v s))" by simp
    from reset_fresh[OF this] ini show ?thesis by auto
  qed
  from st c1 c2 c3 show ?thesis by blast
qed

theorem initial_is_kept_by_reference_witness:
  "fits 2 cart_heap (Ref 1) \<and> 1 < length cart_heap \<and>
   Store 2 cart_heap (Ref 1) = Some cart_store \<and>
   fits 2 (heap (write_prop 1 ''open'' (Prim (JBool True)) cart_store)) (Ref 1) \<and>
   content 2 (write_prop 1 ''open'' (Prim (JBool True)) cart_store) = content 2 cart_store \<and>
   map_option (content 2) (reset 2 (write_prop 1 ''open'' (Prim (JBool True)) cart_store)) =
     Some (reify 2 (heap (write_prop 1 ''open'' (Prim (JBool True)) cart_store)) (Ref 1))"
proof -
  let ?w = "write_prop 1 ''open'' (Prim (JBool True))"
  have a: "fits 2 cart_heap (Ref 1)" by code_simp
  have b: "1 < length cart_heap" by code_simp
  have st: "Store 2 cart_heap (Ref 1) = Some cart_store" by code_simp
  have f: "fits 2 (heap (?w cart_store)) (Ref 1)" by code_simp
  from initial_is_kept_by_reference[OF a b, of "''open''" "Prim (JBool True)"]
  obtain s where s: "Store 2 cart_heap (Ref 1) = Some s"
    and c2: "\<forall>m. content m (?w s) = content m s"
    and c3: "fits 2 (heap (?w s)) (Ref 1) \<longrightarrow>
               (\<exists>s'. reset 2 (?w s) = Some s' \<and>
                  (\<forall>m. content m s' = reify m (heap (?w s)) (Ref 1)))"
    by blast
  from s st have eq: "s = cart_store" by simp
  from c2 eq have 1: "content 2 (?w cart_store) = content 2 cart_store" by simp
  from c3 eq f obtain s' where "reset 2 (?w cart_store) = Some s'"
    and "\<forall>m. content m s' = reify m (heap (?w cart_store)) (Ref 1)" by blast
  then have 2: "map_option (content 2) (reset 2 (?w cart_store)) =
     Some (reify 2 (heap (?w cart_store)) (Ref 1))" by simp
  from a b st f 1 2 show ?thesis by blast
qed

text \<open>
  Claim C7, as the specification states it: after \<^verbatim>\<open>reset()\<close> the value of
  \<^verbatim>\<open>getTree()\<close> is deep-equal to the originally constructed initial value, and
  shares no object with the snapshot or with an earlier state. The second half holds;
  the first fails once the caller has changed the initial object, here by
  \<^verbatim>\<open>initial.summary.total = 7\<close> after constructing the cart with a total of 0.
\<close>

theorem reset_after_mutation_counterexample:
  "Store 2 cart_heap (Ref 1) = Some cart_store \<and>
   reify 2 cart_heap (Ref 1) =
     TObj [(''open'', TPrim (JBool False)),
           (''summary'', TObj [(''total'', TPrim (JNum 0))])] \<and>
   map_option (content 2) (reset 2 (write_prop 0 ''total'' (Prim (JNum 7)) cart_store)) =
     Some (TObj [(''open'', TPrim (JBool False)),
                 (''summary'', TObj [(''total'', TPrim (JNum 7))])])"
  by code_simp

text \<open>
  Claim C7, amended: after \<^verbatim>\<open>reset()\<close> the value of \<^verbatim>\<open>getTree()\<close> is deep-equal
  to the caller's initial object as it is when \<^verbatim>\<open>reset\<close> runs (to the originally
  constructed value whenever the caller has not changed that object since), and every
  object it reaches is newly allocated: it is none of the objects that existed before
  the reset, so it shares nothing with the initial object or with any earlier state,
  and those objects are left as they were. On a finite initial value \<^verbatim>\<open>reset\<close>
  returns.
\<close>

theorem reset_restores_fresh_copy:
  assumes "fits d (heap s) (initial s)"
  shows "\<exists>s'. reset d s = Some s' \<and>
           (\<forall>m. content m s' = reify m (heap s) (initial s)) \<and>
           (\<forall>m. \<forall>a \<in> set (state_nodes m s'). length (heap s) \<le> a) \<and>
           take (length (heap s)) (heap s') = heap s \<and>
           initial s' = initial s"
  using assms by (rule reset_fresh)

theorem reset_restores_fresh_copy_witness:
  "fits 2 (heap forked) (initial forked) \<and>
   reset 2 forked =
     Some (forked\<lparr>heap := heap forked @
                     [cart_summary, [(''open'', Prim (JBool False)), (''summary'', Ref 6)]],
                  state := Ref 7, queued := True, timers := 1\<rparr>) \<and>
   map_option (content 2) (reset 2 forked) = Some (reify 2 (heap forked) (initial forked)) \<and>
   map_option (state_nodes 2) (reset 2 forked) = Some [7, 6] \<and>
   length (heap forked) = 6"
proof -
  have a: "fits 2 (heap forked) (initial forked)" by code_simp
  have r: "reset 2 forked =
     Some (forked\<lparr>heap := heap forked @
                     [cart_summary, [(''open'', Prim (JBool False)), (''summary'', Ref 6)]],
                  state := Ref 7, queued := True, timers := 1\<rparr>)" by code_simp
  have n: "map_option (state_nodes 2) (reset 2 forked) = Some [7, 6]" by code_simp
  have l: "length (heap forked) = 6" by code_simp
  from reset_restores_fresh_copy[OF a] obtain s' where "reset 2 forked = Some s'"
    and "\<forall>m. content m s' = reify m (heap forked) (initial forked)" by blast
  then have c: "map_option (content 2) (reset 2 forked) =
     Some (reify 2 (heap forked) (initial forked))" by simp
  from a r c n l show ?thesis by blast
qed

section \<open>Merging a fork into the state\<close>

lemma assign_props_map_of:
  "map_of (assign_props ob ps) k =
     (case map_of (rev ps) k of None \<Rightarrow> map_of ob k | Some v \<Rightarrow> Some v)"
proof (induction ps arbitrary: ob)
  case Nil
  show ?case by simp
next
  case (Cons kv ps)
  show ?case
    by (cases kv) (simp add: Cons.IH update_conv' map_add_def split: option.splits)
qed

lemma map_of_rev_distinct:
  "distinct (map fst ps) \<Longrightarrow> map_of (rev ps) k = map_of ps k"
proof (induction ps)
  case Nil
  show ?case by simp
next
  case (Cons kv ps)
  then have notin: "fst kv \<notin> fst ` set ps" and IH: "map_of (rev ps) k = map_of ps k"
    by simp_all
  from notin have none: "map_of ps (fst kv) = None"
    by (simp add: map_of_eq_None_iff)
  show ?case
  proof (cases "k = fst kv")
    case True
    with IH none show ?thesis by (cases kv) (simp add: map_add_def)
  next
    case False
    with IH show ?thesis by (cases kv) (simp add: map_add_def split: option.splits)
  qed
qed

lemma assign_props_distinct:
  assumes "distinct (map fst ps)"
  shows "map_of (assign_props ob ps) k =
           (if k \<in> fst ` set ps then map_of ps k else map_of ob k)"
proof (cases "k \<in> fst ` set ps")
  case True
  then obtain v where "map_of ps k = Some v"
    by (cases "map_of ps k") (simp_all add: map_of_eq_None_iff)
  with True show ?thesis
    by (simp add: assign_props_map_of map_of_rev_distinct[OF assms])
next
  case False
  then have "map_of ps k = None" by (simp add: map_of_eq_None_iff)
  with False show ?thesis
    by (simp add: assign_props_map_of map_of_rev_distinct[OF assms])
qed

lemma set_store_object:
  assumes "getTree s = Ref a"
  shows "set_store fork s =
           notify (s\<lparr>heap := (heap s)[a := assign_props (own_props (heap s) (Ref a))
                                              (own_props (heap s) fork)],
                     state := Ref a\<rparr>)"
  using assms by (simp add: getTree_def set_store_def lodash_assign_def)

lemma exec_cmd_keeps_reference:
  "getTree s = Ref a \<Longrightarrow> c \<noteq> CReset \<Longrightarrow> exec_cmd d c s = Some out \<Longrightarrow>
     getTree (store_of out) = Ref a"
  by (cases c)
     (auto simp: getTree_def store_ops lodash_assign_def split: prod.splits)

text \<open>
  Claim C9: when the state is an object, \<^verbatim>\<open>set(fork)\<close> makes every own key of the
  fork map to the fork's value for it, and leaves every other key of the state as it
  was. The merge is shallow: it writes into the state object only, every other object
  of the heap (the objects the state's keys pointed to among them) is left as it was,
  and a key of the fork that holds an object ends up holding that very object. After
  the merge the flag is set, with a timer added unless it was set already. An object
  has each key once, which is the third hypothesis.
\<close>

theorem set_store_shallow_merge:
  assumes "getTree s = Ref a" and "a < length (heap s)"
    and "distinct (map fst (own_props (heap s) fork))"
  shows "map_of (heap (set_store fork s) ! a) k =
           (if k \<in> fst ` set (own_props (heap s) fork) then map_of (own_props (heap s) fork) k
            else map_of (heap s ! a) k) \<and>
         (\<forall>b. b \<noteq> a \<longrightarrow> heap (set_store fork s) ! b = heap s ! b) \<and>
         length (heap (set_store fork s)) = length (heap s) \<and>
         queued (set_store fork s) \<and>
         timers (set_store fork s) = (if queued s then timers s else timers s + 1)"
proof -
  note eq = set_store_object[OF assms(1), of fork]
  from assms(2) have own: "own_props (heap s) (Ref a) = heap s ! a" by (simp add: own_props_def)
  have 1: "map_of (heap (set_store fork s) ! a) k =
           (if k \<in> fst ` set (own_props (heap s) fork) then map_of (own_props (heap s) fork) k
            else map_of (heap s ! a) k)"
    using assms(2) by (simp add: eq own assign_props_distinct[OF assms(3)])
  have 2: "\<forall>b. b \<noteq> a \<longrightarrow> heap (set_store fork s) ! b = heap s ! b"
    by (simp add: eq)
  have 3: "length (heap (set_store fork s)) = length (heap s)"
    by (simp add: eq)
  have 4: "queued (set_store fork s)"
    and 5: "timers (set_store fork s) = (if queued s then timers s else timers s + 1)"
    by (simp_all add: eq notify_def)
  from 1 2 3 4 5 show ?thesis by blast
qed

text \<open>
  \<^verbatim>\<open>set({summary: {total: 9}})\<close> on the cart: \<^verbatim>\<open>summary\<close> now holds the fork's
  object (address 4), \<^verbatim>\<open>open\<close> is as before, and the old summary object (address 2)
  still has its total of 0.
\<close>

theorem set_store_shallow_merge_witness:
  "getTree forked = Ref 3 \<and> 3 < length (heap forked) \<and>
   distinct (map fst (own_props (heap forked) (Ref 5))) \<and>
   map_of (heap (set_store (Ref 5) forked) ! 3) ''summary'' = Some (Ref 4) \<and>
   map_of (heap (set_store (Ref 5) forked) ! 3) ''open'' = Some (Prim (JBool False)) \<and>
   heap (set_store (Ref 5) forked) ! 2 = cart_summary \<and>
   queued (set_store (Ref 5) forked) \<and> timers (set_store (Ref 5) forked) = 1"
proof -
  have a: "getTree forked = Ref 3" by code_simp
  have b: "3 < length (heap forked)" by code_simp
  have c: "distinct (map fst (own_props (heap forked) (Ref 5)))" by code_simp
  have k1: "''summary'' \<in> fst ` set (own_props (heap forked) (Ref 5))" by code_simp
  have v1: "map_of (own_props (heap forked) (Ref 5)) ''summary'' = Some (Ref 4)" by code_simp
  have k2: "''open'' \<notin> fst ` set (own_props (heap forked) (Ref 5))" by code_simp
  have v2: "map_of (heap forked ! 3) ''open'' = Some (Prim (JBool False))" by code_simp
  have o2: "heap forked ! 2 = cart_summary" by code_simp
  have q: "\<not> queued forked" and t: "timers forked = 0" by code_simp+
  from set_store_shallow_merge[OF a b c, of "''summary''"] k1 v1
  have 1: "map_of (heap (set_store (Ref 5) forked) ! 3) ''summary'' = Some (Ref 4)" by simp
  from set_store_shallow_merge[OF a b c, of "''open''"] k2 v2
  have 2: "map_of (heap (set_store (Ref 5) forked) ! 3) ''open'' = Some (Prim (JBool False))"
    by simp
  from set_store_shallow_merge[OF a b c, of "''open''"] o2
  have 3: "heap (set_store (Ref 5) forked) ! 2 = cart_summary" by simp
  from set_store_shallow_merge[OF a b c, of "''open''"] q t
  have 4: "queued (set_store (Ref 5) forked)" and 5: "timers (set_store (Ref 5) forked) = 1"
    by simp_all
  from a b c 1 2 3 4 5 show ?thesis by blast
qed

section \<open>The identity of the state object\<close>

text \<open>
  Claim C10: when the state is an object, \<^verbatim>\<open>getTree()\<close> returns the same reference
  after \<^verbatim>\<open>set(fork)\<close> as before it, and the object behind that reference has the
  fork's keys, so a reference obtained earlier sees the merge. The same holds for
  every command of external code but \<^verbatim>\<open>reset()\<close>. A \<^verbatim>\<open>reset()\<close> of a store whose
  initial value is an object makes \<^verbatim>\<open>getTree()\<close> return a reference to a newly
  allocated object, different from the one before.
\<close>

theorem set_store_keeps_reference:
  assumes "getTree s = Ref a"
  shows "getTree (set_store fork s) = Ref a \<and>
         (c \<noteq> CReset \<longrightarrow> exec_cmd d c s = Some out \<longrightarrow> getTree (store_of out) = Ref a) \<and>
         (a < length (heap s) \<longrightarrow> distinct (map fst (own_props (heap s) fork)) \<longrightarrow>
            (\<forall>kv \<in> set (own_props (heap s) fork).
               map_of (heap (set_store fork s) ! a) (fst kv) = Some (snd kv))) \<and>
         (a < length (heap s) \<longrightarrow> initial s = Ref b \<longrightarrow> fits d (heap s) (initial s) \<longrightarrow>
            (\<exists>s' a'. reset d s = Some s' \<and> getTree s' = Ref a' \<and> length (heap s) \<le> a' \<and> a' \<noteq> a))"
proof (intro conjI impI)
  show "getTree (set_store fork s) = Ref a"
    using assms by (simp add: set_store_object[OF assms] getTree_def)
next
  assume "c \<noteq> CReset" and "exec_cmd d c s = Some out"
  with assms show "getTree (store_of out) = Ref a" by (rule exec_cmd_keeps_reference)
next
  assume a: "a < length (heap s)" and dist: "distinct (map fst (own_props (heap s) fork))"
  from a have own: "own_props (heap s) (Ref a) = heap s ! a" by (simp add: own_props_def)
  show "\<forall>kv \<in> set (own_props (heap s) fork).
          map_of (heap (set_store fork s) ! a) (fst kv) = Some (snd kv)"
  proof
    fix kv assume mem: "kv \<in> set (own_props (heap s) fork)"
    with dist have "map_of (own_props (heap s) fork) (fst kv) = Some (snd kv)" by simp
    with mem a show "map_of (heap (set_store fork s) ! a) (fst kv) = Some (snd kv)"
      by (simp add: set_store_object[OF assms] own assign_props_distinct[OF dist])
  qed
next
  assume a: "a < length (heap s)" and b: "initial s = Ref b"
    and fit: "fits d (heap s) (initial s)"
  from reset_fresh[OF fit] obtain s' where r: "reset d s = Some s'"
    and c: "\<forall>m. content m s' = reify m (heap s) (initial s)"
    and n: "\<forall>m. \<forall>a \<in> set (state_nodes m s'). length (heap s) \<le> a"
    by blast
  from c b have "reify 0 (heap s') (getTree s') = TCut" by (simp add: content_def)
  then obtain a' where a': "getTree s' = Ref a'" by (cases "getTree s'") simp_all
  from n have "\<forall>a \<in> set (state_nodes 0 s'). length (heap s) \<le> a" by blast
  with a' have "length (heap s) \<le> a'" by (simp add: state_nodes_def)
  with a a' r
  show "\<exists>s' a'. reset d s = Some s' \<and> getTree s' = Ref a' \<and> length (heap s) \<le> a' \<and> a' \<noteq> a"
    by auto
qed

text \<open>
  On the cart: \<^verbatim>\<open>set\<close> and \<^verbatim>\<open>notify\<close> leave the state at address 3, the state
  object then holds the fork's summary, and \<^verbatim>\<open>reset\<close> moves the state to the new
  address 7.
\<close>

theorem set_store_keeps_reference_witness:
  "getTree forked = Ref 3 \<and>
   getTree (set_store (Ref 5) forked) = Ref 3 \<and>
   CNotify \<noteq> CReset \<and> exec_cmd 2 CNotify forked = Some (Normal (notify forked)) \<and>
   getTree (notify forked) = Ref 3 \<and>
   3 < length (heap forked) \<and> distinct (map fst (own_props (heap forked) (Ref 5))) \<and>
   (''summary'', Ref 4) \<in> set (own_props (heap forked) (Ref 5)) \<and>
   map_of (heap (set_store (Ref 5) forked) ! 3) ''summary'' = Some (Ref 4) \<and>
   initial forked = Ref 1 \<and> fits 2 (heap forked) (initial forked) \<and>
   map_option getTree (reset 2 forked) = Some (Ref 7)"
proof -
  have a: "getTree forked = Ref 3" by code_simp
  have ne: "CNotify \<noteq> CReset" by simp
  have ex: "exec_cmd 2 CNotify forked = Some (Normal (notify forked))" by simp
  have b: "3 < length (heap forked)" by code_simp
  have dist: "distinct (map fst (own_props (heap forked) (Ref 5)))" by code_simp
  have mem: "(''summary'', Ref 4) \<in> set (own_props (heap forked) (Ref 5))" by code_simp
  have ini: "initial forked = Ref 1" by code_simp
  have fit: "fits 2 (heap forked) (initial forked)" by code_simp
  have rs: "map_option getTree (reset 2 forked) = Some (Ref 7)" by code_simp
  note inst = set_store_keeps_reference[OF a, where fork = "Ref 5" and c = CNotify and d = 2
      and out = "Normal (notify forked)" and b = 1]
  from inst have 1: "getTree (set_store (Ref 5) forked) = Ref 3" by blast
  from inst ne ex have 2: "getTree (notify forked) = Ref 3" by simp
  from inst b dist mem
  have 3: "map_of (heap (set_store (Ref 5) forked) ! 3) ''summary'' = Some (Ref 4)" by fastforce
  from inst b ini fit obtain s' a' where "reset 2 forked = Some s'" "getTree s' = Ref a'"
    "a' \<noteq> 3" by blast
  from a 1 ne ex 2 b dist mem 3 ini fit rs show ?thesis by blast
qed

end
